theory Spec2Isabelle
  imports Main "HOL-Library.AList" "HOL-Library.Sublist"
begin

section \<open>JavaScript strings and numbers\<close>

text \<open>
  Strings are lists of characters. \<open>split_on\<close> is \<open>String.prototype.split\<close> with a
  one-character separator: every occurrence of the separator cuts, so the result has one more
  element than there are separators and may hold empty strings. \<open>padStart\<close> is
  \<open>String.prototype.padStart\<close> with a one-character filler, \<open>endsWith\<close> is
  \<open>String.prototype.endsWith\<close>.
\<close>

fun split_on :: "char \<Rightarrow> string \<Rightarrow> string list" where
  "split_on c [] = [[]]"
| "split_on c (x # xs) =
     (if x = c then [] # split_on c xs
      else (case split_on c xs of
              [] \<Rightarrow> [[x]]
            | p # ps \<Rightarrow> (x # p) # ps))"

definition padStart :: "nat \<Rightarrow> char \<Rightarrow> string \<Rightarrow> string" where
  "padStart n c s = replicate (n - length s) c @ s"

definition endsWith :: "string \<Rightarrow> string \<Rightarrow> bool" where
  "endsWith s suf = (length suf \<le> length s \<and> drop (length s - length suf) s = suf)"

text \<open>The text a template literal gives for a value that may be \<open>undefined\<close>.\<close>

definition template_str :: "string option \<Rightarrow> string" where
  "template_str v = (case v of None \<Rightarrow> ''undefined'' | Some t \<Rightarrow> t)"

text \<open>Decimal text of a non-negative integer, as a template literal prints a count.\<close>

definition digit_char :: "nat \<Rightarrow> char" where
  "digit_char d = ''0123456789'' ! d"

fun string_of_nat :: "nat \<Rightarrow> string" where
  "string_of_nat n =
     (if n < 10 then [digit_char n]
      else string_of_nat (n div 10) @ [digit_char (n mod 10)])"

declare string_of_nat.simps [simp del]

text \<open>
  \<open>parseInt\<close> with no radix argument: leading white space is dropped, a sign is read, a
  prefix \<open>0x\<close> or \<open>0X\<close> selects radix 16, then the longest run of digits of the radix is
  read; no digit at all gives \<open>NaN\<close>, which is \<open>None\<close> here. The value is kept exact
  (the comparisons made on it are against 2000, 800 and 300, which rounding to a double
  does not disturb).
\<close>

definition is_ws :: "char \<Rightarrow> bool" where
  "is_ws c = (c = CHR '' '' \<or> c = CHR 0x09 \<or> c = CHR 0x0A \<or> c = CHR 0x0B
              \<or> c = CHR 0x0C \<or> c = CHR 0x0D)"

definition digit_val :: "nat \<Rightarrow> char \<Rightarrow> nat option" where
  "digit_val radix c =
     (let n = (of_char c :: nat);
          v = (if 48 \<le> n \<and> n \<le> 57 then Some (n - 48)
               else if 97 \<le> n \<and> n \<le> 122 then Some (n - 87)
               else if 65 \<le> n \<and> n \<le> 90 then Some (n - 55)
               else None)
      in case v of None \<Rightarrow> None | Some d \<Rightarrow> if d < radix then Some d else None)"

fun read_digits :: "nat \<Rightarrow> string \<Rightarrow> nat list" where
  "read_digits radix [] = []"
| "read_digits radix (c # cs) =
     (case digit_val radix c of
        None \<Rightarrow> []
      | Some d \<Rightarrow> d # read_digits radix cs)"

definition digits_value :: "nat \<Rightarrow> nat list \<Rightarrow> nat" where
  "digits_value radix ds = foldl (\<lambda>a d. a * radix + d) 0 ds"

definition parseInt :: "string \<Rightarrow> int option" where
  "parseInt str =
     (let s1 = dropWhile is_ws str;
          neg = (case s1 of [] \<Rightarrow> False | c # _ \<Rightarrow> c = CHR ''-'');
          s2 = (case s1 of [] \<Rightarrow> []
                | c # r \<Rightarrow> if c = CHR ''-'' \<or> c = CHR ''+'' then r else s1);
          hex = (take 2 s2 = ''0x'' \<or> take 2 s2 = ''0X'');
          radix = (if hex then 16 else 10);
          s3 = (if hex then drop 2 s2 else s2);
          ds = read_digits radix s3
      in if ds = [] then None
         else Some ((if neg then - 1 else 1) * int (digits_value radix ds)))"

text \<open>\<open>v >= k\<close> on a number that may be \<open>NaN\<close>: every comparison with \<open>NaN\<close> is false.\<close>

definition js_ge :: "int option \<Rightarrow> int \<Rightarrow> bool" where
  "js_ge v k = (case v of None \<Rightarrow> False | Some n \<Rightarrow> k \<le> n)"

section \<open>The folder key of a record (download.js, parseDateToFolder)\<close>

datatype exn = TypeError

definition MONTHS :: "(string \<times> string) list" where
  "MONTHS =
     [(''January'', ''01''), (''February'', ''02''), (''March'', ''03''), (''April'', ''04''),
      (''May'', ''05''), (''June'', ''06''), (''July'', ''07''), (''August'', ''08''),
      (''September'', ''09''), (''October'', ''10''), (''November'', ''11''),
      (''December'', ''12'')]"

text \<open>
  \<open>parts[1].padStart\<close> raises a \<open>TypeError\<close> when the date text has no space, hence no
  second part. A first part that is not a key of \<open>MONTHS\<close> reads as \<open>undefined\<close> and prints
  as such. (Property names that every object inherits, such as \<open>constructor\<close>, are not keys
  of the table here.)
\<close>

definition parseDateToFolder :: "string \<Rightarrow> exn + string" where
  "parseDateToFolder dateStr =
     (case split_on CHR '' '' dateStr of
        p0 # day # _ \<Rightarrow>
          Inr (template_str (map_of MONTHS p0) @ ''-'' @ padStart 2 CHR ''0'' day)
      | _ \<Rightarrow> Inl TypeError)"

section \<open>Assets and their file names (download.js, the download loop of processRow)\<close>

record asset =
  url :: string
  asset_type :: string
  asset_size :: "string option"
  resolution :: "string option"

text \<open>
  The file name of an asset, given the number of files downloaded so far for the record.
  A resolution that is \<open>null\<close> or the empty string is falsy.
\<close>

definition asset_filename :: "asset \<Rightarrow> nat \<Rightarrow> string" where
  "asset_filename download downloadedCount =
     (if asset_type download = ''pdf'' then ''image.pdf''
      else (case resolution download of
              Some (c # cs) \<Rightarrow>
                (case split_on CHR ''x'' (c # cs) of
                   [] \<Rightarrow> ''thumb_200.jpg''
                 | width # _ \<Rightarrow>
                     if js_ge (parseInt width) 2000 then ''full.jpg''
                     else if js_ge (parseInt width) 800 then ''thumb_1000.jpg''
                     else if js_ge (parseInt width) 300 then ''thumb_400.jpg''
                     else ''thumb_200.jpg'')
            | _ \<Rightarrow> ''image_'' @ string_of_nat downloadedCount @ ''.jpg''))"

section \<open>The world: file system, network, browser\<close>

text \<open>
  A JSON value as \<open>JSON.parse\<close> returns it. An object is the list of its own properties.
  Numbers are kept as integers: no number is read by the program.
\<close>

datatype json =
    JNull
  | JBool bool
  | JNum int
  | JStr string
  | JArr "json list"
  | JObj "(string \<times> json) list"

text \<open>
  The content of a file: either bytes that are not a JSON text (an image, a truncated
  document), on which \<open>JSON.parse\<close> raises, or a JSON text, identified with the value
  \<open>JSON.parse\<close> returns for it.
\<close>

datatype content = Unparsable string | JsonText json

text \<open>
  The output directory: folder name to directory, a directory being file name to content.
  Folder keys are plain names, as every \<open>MM-DD\<close> key is. Reading (\<open>access\<close>, \<open>readdir\<close>,
  \<open>readFile\<close>) fails only for what is missing. Creating a folder and writing a file can be
  rejected by the store, and a write can be rejected part-way, leaving a partial file.
\<close>

type_synonym dir = "(string \<times> content) list"
type_synonym filesystem = "(string \<times> dir) list"

text \<open>
  What the program does to the outside, in order: a navigation, a fetch issued for a
  destination file (url, folder, file name), a file written whole, a file left partial by
  a write that was rejected part-way, a folder created or found, a pause in milliseconds.
\<close>

datatype event =
    Goto string
  | Fetch string string string
  | Wrote string string
  | Broke string string
  | Mkdir string
  | Delay nat

record state =
  files :: filesystem
  clock :: nat
  trace :: "event list"

datatype field =
    ObjectName | ObjectDescription | ReleaseDate | RaPosition | DecPosition
  | Constellation | Distance | Instrument | ExposureDates | Filters | Credit

record pageData =
  pageTitle :: "string option"
  pageDescription :: "string option"
  meta_fields :: "field \<Rightarrow> string option"
  downloads :: "asset list"

record videoContent =
  title :: "string option"
  fullDescription :: string
  descriptionParagraphs :: "string list"
  relatedTerms :: "string list"
  scienceRelease :: "string option"
  colorInfo :: "string option"
  mainImageUrl :: "string option"

text \<open>
  A rendered document, by what the three scripts run inside the page return on it
  (\<open>Inl\<close>: the evaluation raises, with the message): \<open>extractMetadata\<close>, the search for a
  link to \<open>/asset/\<close>, and \<open>extractVideoContent\<close>.
\<close>

record doc =
  metadataEval :: "string + pageData"
  assetLinkEval :: "string + string option"
  videoEval :: "string + videoContent"

datatype nav_result = NavError string | NavOk string doc

text \<open>
  A fetch either rejects (network error) or gives a response: its status and its body,
  where reading the body may itself reject.
\<close>

datatype fetch_result = NetworkError string | Response nat "string + content"

text \<open>
  What the store answers to \<open>fs.writeFile\<close> on an existing folder: the whole buffer is
  written; or the call is rejected before anything is written (with the message); or it is
  rejected after the file was opened and truncated and some bytes were written, which stay
  in the file (the message, the bytes left). Such a left-over is not a JSON text: a proper
  prefix of the text of an object never parses.
\<close>

datatype write_result = WriteOk | WriteRefused string | WriteBroken string string

text \<open>
  The remote side, the wall clock and the store's answers to writes and folder creations
  are arbitrary functions of the moment of the call (the number of calls made to the remote
  side before) and, for the store, of the path: nothing is assumed about them.
  \<open>mkdir_answer\<close> gives the message when the creation is rejected.
\<close>

record env =
  goto :: "string \<Rightarrow> nat \<Rightarrow> nav_result"
  fetch :: "string \<Rightarrow> nat \<Rightarrow> fetch_result"
  now :: "nat \<Rightarrow> string"
  write_answer :: "string \<Rightarrow> string \<Rightarrow> nat \<Rightarrow> write_result"
  mkdir_answer :: "string \<Rightarrow> nat \<Rightarrow> string option"

definition delay :: "nat \<Rightarrow> state \<Rightarrow> state" where
  "delay ms s = s\<lparr>trace := trace s @ [Delay ms]\<rparr>"

definition access :: "filesystem \<Rightarrow> string \<Rightarrow> string \<Rightarrow> bool" where
  "access fs folder name =
     (case map_of fs folder of None \<Rightarrow> False | Some d \<Rightarrow> map_of d name \<noteq> None)"

definition readdir :: "filesystem \<Rightarrow> string \<Rightarrow> string list option" where
  "readdir fs folder = map_option (map fst) (map_of fs folder)"

definition readFile :: "filesystem \<Rightarrow> string \<Rightarrow> string \<Rightarrow> content option" where
  "readFile fs folder name =
     (case map_of fs folder of None \<Rightarrow> None | Some d \<Rightarrow> map_of d name)"

text \<open>
  \<open>fs.mkdir\<close> with \<open>recursive: true\<close>: it may be rejected; else an existing folder is left as
  it is and a missing one is created empty.
\<close>

definition mkdir :: "env \<Rightarrow> string \<Rightarrow> state \<Rightarrow> (string + unit) \<times> state" where
  "mkdir E folder s =
     (case mkdir_answer E folder (clock s) of
        Some msg \<Rightarrow> (Inl msg, s)
      | None \<Rightarrow>
          (Inr (),
           s\<lparr>files := (case map_of (files s) folder of
                         None \<Rightarrow> AList.update folder [] (files s)
                       | Some _ \<Rightarrow> files s),
             trace := trace s @ [Mkdir folder]\<rparr>))"

text \<open>
  \<open>fs.writeFile\<close>: rejects when the folder does not exist; else the store answers: the file
  is replaced by the buffer, or the call is rejected with nothing done, or it is rejected
  with the file left holding the bytes written so far.
\<close>

definition writeFile ::
  "env \<Rightarrow> string \<Rightarrow> string \<Rightarrow> content \<Rightarrow> state \<Rightarrow> (string + unit) \<times> state" where
  "writeFile E folder name buf s =
     (case map_of (files s) folder of
        None \<Rightarrow> (Inl ''ENOENT'', s)
      | Some d \<Rightarrow>
          (case write_answer E folder name (clock s) of
             WriteOk \<Rightarrow>
               (Inr (),
                s\<lparr>files := AList.update folder (AList.update name buf d) (files s),
                  trace := trace s @ [Wrote folder name]\<rparr>)
           | WriteRefused msg \<Rightarrow> (Inl msg, s)
           | WriteBroken msg left \<Rightarrow>
               (Inl msg,
                s\<lparr>files := AList.update folder (AList.update name (Unparsable left) d) (files s),
                  trace := trace s @ [Broke folder name]\<rparr>)))"

definition navigate :: "env \<Rightarrow> string \<Rightarrow> state \<Rightarrow> (string + string \<times> doc) \<times> state" where
  "navigate E u s =
     (let s1 = s\<lparr>clock := Suc (clock s), trace := trace s @ [Goto u]\<rparr>
      in case goto E u (clock s) of
           NavError msg \<Rightarrow> (Inl msg, s1)
         | NavOk final d \<Rightarrow> (Inr (final, d), s1))"

section \<open>Downloading one file with retry (download.js, downloadFile)\<close>

definition MAX_RETRIES :: nat where
  "MAX_RETRIES = 3"

text \<open>
  The body of the \<open>try\<close>: fetch, refuse a status outside 200..299, read the whole body,
  then write it. \<open>Inl\<close> is the message of what was raised.
\<close>

definition download_attempt ::
  "env \<Rightarrow> string \<Rightarrow> string \<Rightarrow> string \<Rightarrow> state \<Rightarrow> (string + unit) \<times> state" where
  "download_attempt E u folder name s =
     (let s1 = s\<lparr>clock := Suc (clock s), trace := trace s @ [Fetch u folder name]\<rparr>
      in case fetch E u (clock s) of
           NetworkError msg \<Rightarrow> (Inl msg, s1)
         | Response status body \<Rightarrow>
             if \<not> (200 \<le> status \<and> status \<le> 299)
             then (Inl (''HTTP '' @ string_of_nat status), s1)
             else (case body of
                     Inl msg \<Rightarrow> (Inl msg, s1)
                   | Inr buf \<Rightarrow> writeFile E folder name buf s1))"

function downloadFile_from ::
  "env \<Rightarrow> string \<Rightarrow> string \<Rightarrow> string \<Rightarrow> nat \<Rightarrow> nat \<Rightarrow> state \<Rightarrow> bool \<times> state" where
  "downloadFile_from E u folder name retries attempt s =
     (if attempt \<le> retries then
        (case download_attempt E u folder name s of
           (Inr _, s1) \<Rightarrow> (True, s1)
         | (Inl _, s1) \<Rightarrow>
             if attempt = retries then (False, s1)
             else downloadFile_from E u folder name retries (Suc attempt)
                    (delay (500 * attempt) s1))
      else (False, s))"
  by pat_completeness auto
termination
  by (relation "measure (\<lambda>(E, u, folder, name, retries, attempt, s). Suc retries - attempt)")
     auto

declare downloadFile_from.simps [simp del]

definition downloadFile ::
  "env \<Rightarrow> string \<Rightarrow> string \<Rightarrow> string \<Rightarrow> nat \<Rightarrow> state \<Rightarrow> bool \<times> state" where
  "downloadFile E u folder name retries s = downloadFile_from E u folder name retries 1 s"

section \<open>Processing one record (download.js, processRow)\<close>

record row =
  Date :: string
  URL :: string
  Name :: string
  Caption :: string
  Year :: string
  Image :: string

text \<open>
  The result object of a record: \<open>{success: true, skipped: true}\<close>,
  \<open>{success: true, skipped: false}\<close>, or \<open>{success: false, error: message}\<close>.
\<close>

datatype result = Skipped | Processed | Failed string

text \<open>
  The resume check, the first \<open>try\<close> of \<open>processRow\<close>: \<open>fs.access\<close> of the metadata
  file, then \<open>fs.readdir\<close> of the folder and a search for a name ending in \<open>.jpg\<close> or
  \<open>.pdf\<close>. Whatever is raised there is swallowed and the record is processed.
\<close>

definition hasImages :: "string list \<Rightarrow> bool" where
  "hasImages fs = list_ex (\<lambda>f. endsWith f ''.jpg'' \<or> endsWith f ''.pdf'') fs"

definition already_processed :: "filesystem \<Rightarrow> string \<Rightarrow> bool" where
  "already_processed fs folder =
     (if access fs folder ''metadata.json''
      then (case readdir fs folder of
              None \<Rightarrow> False
            | Some names \<Rightarrow> hasImages names)
      else False)"

text \<open>The download loop: one step for one asset, then the loop over the list.\<close>

definition download_step ::
  "env \<Rightarrow> string \<Rightarrow> asset \<Rightarrow> nat \<Rightarrow> state \<Rightarrow> string \<times> bool \<times> state" where
  "download_step E folder download downloadedCount s =
     (let filename = asset_filename download downloadedCount;
          (ok, s1) = downloadFile E (url download) folder filename MAX_RETRIES s
      in (filename, ok, s1))"

text \<open>
  Beside the count of the source, the loop returns what it did for each asset, in order:
  the file name chosen and whether the download succeeded.
\<close>

fun download_all ::
  "env \<Rightarrow> string \<Rightarrow> asset list \<Rightarrow> nat \<Rightarrow> state \<Rightarrow> nat \<times> (string \<times> bool) list \<times> state" where
  "download_all E folder [] downloadedCount s = (downloadedCount, [], s)"
| "download_all E folder (download # rest) downloadedCount s =
     (case download_step E folder download downloadedCount s of
        (filename, ok, s1) \<Rightarrow>
          (case download_all E folder rest
                  (if ok then Suc downloadedCount else downloadedCount) s1 of
             (n, outcomes, s2) \<Rightarrow> (n, (filename, ok) # outcomes, s2)))"

text \<open>The metadata document, as \<open>JSON.stringify\<close> writes it: no key for \<open>undefined\<close>.\<close>

definition opt_field :: "string \<Rightarrow> json option \<Rightarrow> (string \<times> json) list" where
  "opt_field k v = (case v of None \<Rightarrow> [] | Some j \<Rightarrow> [(k, j)])"

definition nullable :: "string option \<Rightarrow> json" where
  "nullable v = (case v of None \<Rightarrow> JNull | Some t \<Rightarrow> JStr t)"

definition asset_json :: "asset \<Rightarrow> json" where
  "asset_json a =
     JObj [(''url'', JStr (url a)), (''type'', JStr (asset_type a)),
           (''size'', nullable (asset_size a)), (''resolution'', nullable (resolution a))]"

definition all_fields :: "field list" where
  "all_fields =
     [ObjectName, ObjectDescription, ReleaseDate, RaPosition, DecPosition, Constellation,
      Distance, Instrument, ExposureDates, Filters, Credit]"

fun field_key :: "field \<Rightarrow> string" where
  "field_key ObjectName = ''objectName''"
| "field_key ObjectDescription = ''objectDescription''"
| "field_key ReleaseDate = ''releaseDate''"
| "field_key RaPosition = ''raPosition''"
| "field_key DecPosition = ''decPosition''"
| "field_key Constellation = ''constellation''"
| "field_key Distance = ''distance''"
| "field_key Instrument = ''instrument''"
| "field_key ExposureDates = ''exposureDates''"
| "field_key Filters = ''filters''"
| "field_key Credit = ''credit''"

definition pageData_json :: "pageData \<Rightarrow> (string \<times> json) list" where
  "pageData_json pd =
     opt_field ''pageTitle'' (map_option JStr (pageTitle pd))
     @ opt_field ''pageDescription'' (map_option JStr (pageDescription pd))
     @ concat (map (\<lambda>f. opt_field (field_key f) (map_option JStr (meta_fields pd f))) all_fields)
     @ [(''downloads'', JArr (map asset_json (downloads pd)))]"

definition build_metadata :: "row \<Rightarrow> string \<Rightarrow> string \<Rightarrow> pageData \<Rightarrow> string \<Rightarrow> json" where
  "build_metadata r folder finalUrl pd stamp =
     JObj ([(''date'', JStr (Date r)), (''folder'', JStr folder),
            (''originalUrl'', JStr (URL r)), (''finalUrl'', JStr finalUrl),
            (''csvName'', JStr (Name r)), (''csvCaption'', JStr (Caption r)),
            (''csvYear'', JStr (Year r)), (''csvImage'', JStr (Image r))]
           @ pageData_json pd
           @ [(''downloadedAt'', JStr stamp)])"

text \<open>
  Navigation and extraction, up to the point where the folder is created: the page is
  opened, the final URL read, the metadata extracted; with no download found, a link to
  \<open>/asset/\<close> is looked for and, if there is one, followed and extracted again.
  \<open>Inl\<close> is the message of what was raised.
\<close>

definition navigate_and_extract ::
  "env \<Rightarrow> row \<Rightarrow> state \<Rightarrow> (string + string \<times> pageData) \<times> state" where
  "navigate_and_extract E r s =
     (case navigate E (URL r) s of
        (Inl msg, s1) \<Rightarrow> (Inl msg, s1)
      | (Inr (finalUrl, d), s1) \<Rightarrow>
          (let s2 = delay 500 s1
           in case metadataEval d of
                Inl msg \<Rightarrow> (Inl msg, s2)
              | Inr pd \<Rightarrow>
                  if downloads pd = [] then
                    (case assetLinkEval d of
                       Inl msg \<Rightarrow> (Inl msg, s2)
                     | Inr (Some (c # cs)) \<Rightarrow>
                         (case navigate E (c # cs) s2 of
                            (Inl msg, s3) \<Rightarrow> (Inl msg, s3)
                          | (Inr (_, d2), s3) \<Rightarrow>
                              (let s4 = delay 500 s3
                               in case metadataEval d2 of
                                    Inl msg \<Rightarrow> (Inl msg, s4)
                                  | Inr pd2 \<Rightarrow> (Inr (finalUrl, pd2), s4)))
                     | Inr _ \<Rightarrow> (Inr (finalUrl, pd), s2))
                  else (Inr (finalUrl, pd), s2)))"

text \<open>
  From the creation of the folder to the end of the \<open>try\<close>: the folder is created, the
  metadata object is built, every asset is downloaded, then the metadata file is written.
  What the creation or the write raises is raised inside the \<open>try\<close>.
\<close>

definition download_and_save ::
  "env \<Rightarrow> row \<Rightarrow> string \<Rightarrow> string \<Rightarrow> pageData \<Rightarrow> state \<Rightarrow> (string + unit) \<times> state" where
  "download_and_save E r folder finalUrl pd s =
     (case mkdir E folder s of
        (Inl msg, s1) \<Rightarrow> (Inl msg, s1)
      | (Inr _, s1) \<Rightarrow>
          (let metadata = build_metadata r folder finalUrl pd (now E (clock s1))
           in case download_all E folder (downloads pd) 0 s1 of
                (downloadedCount, outcomes, s2) \<Rightarrow>
                  writeFile E folder ''metadata.json'' (JsonText metadata) s2))"

definition process_try :: "env \<Rightarrow> row \<Rightarrow> string \<Rightarrow> state \<Rightarrow> (string + unit) \<times> state" where
  "process_try E r folder s =
     (case navigate_and_extract E r s of
        (Inl msg, s1) \<Rightarrow> (Inl msg, s1)
      | (Inr (finalUrl, pd), s1) \<Rightarrow> download_and_save E r folder finalUrl pd s1)"

text \<open>
  \<open>processRow\<close>: the folder key is computed before any \<open>try\<close>, so what it raises leaves
  the function (\<open>Inl\<close>). Everything raised inside the second \<open>try\<close> becomes a
  \<open>Failed\<close> result with the message.
\<close>

definition processRow ::
  "env \<Rightarrow> row \<Rightarrow> nat \<Rightarrow> nat \<Rightarrow> state \<Rightarrow> (exn + result) \<times> state" where
  "processRow E r index total_n s =
     (case parseDateToFolder (Date r) of
        Inl e \<Rightarrow> (Inl e, s)
      | Inr folder \<Rightarrow>
          if already_processed (files s) folder then (Inr Skipped, s)
          else (case process_try E r folder s of
                  (Inl msg, s1) \<Rightarrow> (Inr (Failed msg), s1)
                | (Inr _, s1) \<Rightarrow> (Inr Processed, s1)))"

section \<open>The batch loop (download.js, main)\<close>

definition DELAY_MS :: nat where
  "DELAY_MS = 800"

record stats =
  processed :: nat
  skipped :: nat
  failed :: nat

definition tally :: "result \<Rightarrow> stats \<Rightarrow> stats" where
  "tally res st =
     (case res of
        Skipped \<Rightarrow> st\<lparr>skipped := Suc (skipped st)\<rparr>
      | Processed \<Rightarrow> st\<lparr>processed := Suc (processed st)\<rparr>
      | Failed _ \<Rightarrow> st\<lparr>failed := Suc (failed st)\<rparr>)"

text \<open>
  The loop over the records from index \<open>i\<close> on. An exception leaving \<open>processRow\<close> ends
  the loop (\<open>Some\<close>). Beside the counters, the results of the records handled are returned
  in order.
\<close>

fun main_loop ::
  "env \<Rightarrow> row list \<Rightarrow> nat \<Rightarrow> nat \<Rightarrow> stats \<Rightarrow> state
     \<Rightarrow> exn option \<times> stats \<times> result list \<times> state" where
  "main_loop E [] i total_n st s = (None, st, [], s)"
| "main_loop E (r # rs) i total_n st s =
     (case processRow E r i total_n s of
        (Inl e, s1) \<Rightarrow> (Some e, st, [], s1)
      | (Inr res, s1) \<Rightarrow>
          (case main_loop E rs (Suc i) total_n (tally res st)
                  (if res \<noteq> Skipped \<and> Suc i < total_n then delay DELAY_MS s1 else s1) of
             (e, st2, results, s2) \<Rightarrow> (e, st2, res # results, s2)))"

definition run_stage1 ::
  "env \<Rightarrow> row list \<Rightarrow> state \<Rightarrow> exn option \<times> stats \<times> result list \<times> state" where
  "run_stage1 E records s =
     main_loop E records 0 (length records) \<lparr>processed = 0, skipped = 0, failed = 0\<rparr> s"

section \<open>Enriching one folder (enrich-metadata.js, processFolder)\<close>

text \<open>
  Reading a property of a parsed value: on \<open>null\<close> it raises a \<open>TypeError\<close>, on an object
  it gives the property or \<open>undefined\<close> (\<open>None\<close>), on anything else \<open>undefined\<close> (none of
  the names read here is a property of a string, a number, a boolean or an array).
\<close>

definition get_prop :: "json \<Rightarrow> string \<Rightarrow> exn + json option" where
  "get_prop j k =
     (case j of
        JNull \<Rightarrow> Inl TypeError
      | JObj kvs \<Rightarrow> Inr (map_of kvs k)
      | _ \<Rightarrow> Inr None)"

definition read_prop :: "json \<Rightarrow> string \<Rightarrow> json option" where
  "read_prop j k = (case get_prop j k of Inl _ \<Rightarrow> None | Inr v \<Rightarrow> v)"

definition truthy :: "json option \<Rightarrow> bool" where
  "truthy v =
     (case v of
        None \<Rightarrow> False
      | Some JNull \<Rightarrow> False
      | Some (JBool b) \<Rightarrow> b
      | Some (JNum n) \<Rightarrow> n \<noteq> 0
      | Some (JStr t) \<Rightarrow> t \<noteq> []
      | Some _ \<Rightarrow> True)"

definition js_or :: "json option \<Rightarrow> json option \<Rightarrow> json option" where
  "js_or a b = (if truthy a then a else b)"

definition enrichedData ::
  "json \<Rightarrow> string \<Rightarrow> videoContent \<Rightarrow> string \<Rightarrow> (string \<times> json) list" where
  "enrichedData metadata folderName vc stamp =
     opt_field ''date'' (read_prop metadata ''date'')
     @ [(''folder'', JStr folderName)]
     @ opt_field ''title''
         (js_or (map_option JStr (title vc))
            (js_or (read_prop metadata ''pageTitle'') (read_prop metadata ''csvName'')))
     @ opt_field ''shortCaption'' (read_prop metadata ''csvCaption'')
     @ [(''fullDescription'', JStr (fullDescription vc)),
        (''paragraphs'', JArr (map JStr (descriptionParagraphs vc))),
        (''quickFacts'',
           JObj (opt_field ''objectName'' (read_prop metadata ''objectName'')
                 @ opt_field ''objectType'' (read_prop metadata ''objectDescription'')
                 @ opt_field ''constellation'' (read_prop metadata ''constellation'')
                 @ opt_field ''distance'' (read_prop metadata ''distance'')
                 @ opt_field ''instrument'' (read_prop metadata ''instrument'')
                 @ opt_field ''releaseDate'' (read_prop metadata ''releaseDate'')
                 @ opt_field ''yearCaptured'' (read_prop metadata ''csvYear''))),
        (''tags'', JArr (map JStr (relatedTerms vc))),
        (''scienceRelease'', nullable (scienceRelease vc)),
        (''technical'',
           JObj (opt_field ''filters'' (read_prop metadata ''filters'')
                 @ opt_field ''exposureDates'' (read_prop metadata ''exposureDates'')
                 @ [(''colorInfo'', nullable (colorInfo vc))]))]
     @ opt_field ''credit'' (read_prop metadata ''credit'')
     @ [(''images'',
           JObj ([(''fullResolution'', JStr ''full.jpg''),
                  (''thumbnail'', JStr ''thumb_1000.jpg'')]
                 @ opt_field ''webUrl'' (map_option JStr (mainImageUrl vc)))),
        (''urls'',
           JObj (opt_field ''original'' (read_prop metadata ''originalUrl'')
                 @ opt_field ''final'' (read_prop metadata ''finalUrl''))),
        (''enrichedAt'', JStr stamp)]"

text \<open>
  The last \<open>try\<close> of \<open>processFolder\<close>. \<open>replace\<close> and \<open>substring\<close> are methods of strings
  only: a truthy \<open>finalUrl\<close> or title that is not a string raises there.
\<close>

definition enrich_try ::
  "env \<Rightarrow> json \<Rightarrow> string \<Rightarrow> json option \<Rightarrow> state \<Rightarrow> (string + unit) \<times> state" where
  "enrich_try E metadata folderName finalUrl s =
     (case finalUrl of
        Some (JStr u) \<Rightarrow>
          (case navigate E u s of
             (Inl msg, s1) \<Rightarrow> (Inl msg, s1)
           | (Inr (_, d), s1) \<Rightarrow>
               (let s2 = delay 300 s1
                in case videoEval d of
                     Inl msg \<Rightarrow> (Inl msg, s2)
                   | Inr vc \<Rightarrow>
                       (let data = enrichedData metadata folderName vc (now E (clock s2))
                        in case writeFile E folderName ''video-content.json''
                                  (JsonText (JObj data)) s2 of
                             (Inl msg, s3) \<Rightarrow> (Inl msg, s3)
                           | (Inr _, s3) \<Rightarrow>
                               (case map_of data ''title'' of
                                  None \<Rightarrow> (Inr (), s3)
                                | Some (JStr _) \<Rightarrow> (Inr (), s3)
                                | Some j \<Rightarrow>
                                    if truthy (Some j)
                                    then (Inl ''substring is not a function'', s3)
                                    else (Inr (), s3)))))
      | _ \<Rightarrow> (Inl ''metadata.finalUrl.replace is not a function'', s))"

definition processFolder ::
  "env \<Rightarrow> string \<Rightarrow> nat \<Rightarrow> nat \<Rightarrow> state \<Rightarrow> (exn + result) \<times> state" where
  "processFolder E folderName index total_n s =
     (if access (files s) folderName ''video-content.json'' then (Inr Skipped, s)
      else (case readFile (files s) folderName ''metadata.json'' of
              None \<Rightarrow> (Inr (Failed ''No metadata''), s)
            | Some (Unparsable _) \<Rightarrow> (Inr (Failed ''No metadata''), s)
            | Some (JsonText metadata) \<Rightarrow>
                (case get_prop metadata ''finalUrl'' of
                   Inl e \<Rightarrow> (Inl e, s)
                 | Inr finalUrl \<Rightarrow>
                     if \<not> truthy finalUrl then (Inr (Failed ''No finalUrl''), s)
                     else (case enrich_try E metadata folderName finalUrl s of
                             (Inl msg, s1) \<Rightarrow> (Inr (Failed msg), s1)
                           | (Inr _, s1) \<Rightarrow> (Inr Processed, s1)))))"

section \<open>Notions used to state the properties\<close>


text \<open>
  A record folder is complete when it holds \<open>metadata.json\<close> and at least one entry whose
  name ends in \<open>.jpg\<close> or \<open>.pdf\<close>.
\<close>

definition folder_complete :: "filesystem \<Rightarrow> string \<Rightarrow> bool" where
  "folder_complete fs folder =
     (case map_of fs folder of
        None \<Rightarrow> False
      | Some d \<Rightarrow>
          ''metadata.json'' \<in> fst ` set d
          \<and> (\<exists>f \<in> fst ` set d. suffix ''.jpg'' f \<or> suffix ''.pdf'' f))"

text \<open>
  An effect on a folder: a fetch for a file of it, a file written in it, whole or in part,
  its creation.
\<close>

definition touches :: "string \<Rightarrow> event \<Rightarrow> bool" where
  "touches k e =
     (case e of
        Fetch _ f _ \<Rightarrow> f = k
      | Wrote f _ \<Rightarrow> f = k
      | Broke f _ \<Rightarrow> f = k
      | Mkdir f \<Rightarrow> f = k
      | _ \<Rightarrow> False)"

text \<open>An effect on one file: a fetch for it, a write of it, whole or in part.\<close>

definition mentions :: "string \<Rightarrow> string \<Rightarrow> event \<Rightarrow> bool" where
  "mentions f n e =
     (case e of
        Fetch _ g m \<Rightarrow> g = f \<and> m = n
      | Wrote g m \<Rightarrow> g = f \<and> m = n
      | Broke g m \<Rightarrow> g = f \<and> m = n
      | _ \<Rightarrow> False)"

text \<open>An effect that is not the whole write of a file and, if on a file, is on this one.\<close>

definition partial_effect :: "string \<Rightarrow> string \<Rightarrow> event \<Rightarrow> bool" where
  "partial_effect f n e =
     ((\<forall>g m. e \<noteq> Wrote g m) \<and> (\<forall>g m. mentions g m e \<longrightarrow> g = f \<and> m = n))"


text \<open>
  \<open>extends f s s'\<close>: from \<open>s\<close> to \<open>s'\<close> effects were only added, those on a folder are on
  \<open>f\<close>, every other folder is as it was, and no folder lost a file.
\<close>

definition extends :: "string \<Rightarrow> state \<Rightarrow> state \<Rightarrow> bool" where
  "extends f s s' =
     ((\<exists>evs. trace s' = trace s @ evs \<and> (\<forall>e \<in> set evs. \<forall>k. touches k e \<longrightarrow> k = f))
      \<and> (\<forall>k. k \<noteq> f \<longrightarrow> map_of (files s') k = map_of (files s) k)
      \<and> (\<forall>k d. map_of (files s) k = Some d \<longrightarrow>
             (\<exists>d'. map_of (files s') k = Some d' \<and> fst ` set d \<subseteq> fst ` set d')))"

text \<open>
  What the outside answers to one download attempt made at moment \<open>c\<close> on a store \<open>fs\<close>:
  the attempt succeeds with a body when the fetch answers a status in 200..299 with a
  readable body, the folder exists and the store writes the whole buffer; it leaves a
  partial file when all this holds but the store rejects the write part-way; in every other
  case it does nothing to the store.
\<close>

datatype attempt_kind = Succeeds content | Leaves string | Nothing

definition attempt_kind ::
  "env \<Rightarrow> string \<Rightarrow> string \<Rightarrow> string \<Rightarrow> filesystem \<Rightarrow> nat \<Rightarrow> attempt_kind" where
  "attempt_kind E u folder name fs c =
     (case fetch E u c of
        Response status (Inr buf) \<Rightarrow>
          if 200 \<le> status \<and> status \<le> 299 \<and> map_of fs folder \<noteq> None
          then (case write_answer E folder name (Suc c) of
                  WriteOk \<Rightarrow> Succeeds buf
                | WriteBroken _ left \<Rightarrow> Leaves left
                | WriteRefused _ \<Rightarrow> Nothing)
          else Nothing
      | _ \<Rightarrow> Nothing)"

definition attempt_events ::
  "env \<Rightarrow> string \<Rightarrow> string \<Rightarrow> string \<Rightarrow> filesystem \<Rightarrow> nat \<Rightarrow> event list" where
  "attempt_events E u folder name fs c =
     Fetch u folder name
     # (case attempt_kind E u folder name fs c of
          Succeeds _ \<Rightarrow> [Wrote folder name]
        | Leaves _ \<Rightarrow> [Broke folder name]
        | Nothing \<Rightarrow> [])"

text \<open>
  The effects of \<open>k\<close> download attempts starting at moment \<open>c\<close>, one fetch each: every
  attempt \<open>a\<close> but the last is followed by a pause of \<open>500 * a\<close> milliseconds.
\<close>

definition attempts_trace ::
  "env \<Rightarrow> string \<Rightarrow> string \<Rightarrow> string \<Rightarrow> filesystem \<Rightarrow> nat \<Rightarrow> nat \<Rightarrow> event list" where
  "attempts_trace E u folder name fs c k =
     concat (map (\<lambda>a. attempt_events E u folder name fs (c + a - 1) @ [Delay (500 * a)])
               [1..<k])
     @ (if k = 0 then [] else attempt_events E u folder name fs (c + k - 1))"

section \<open>Example worlds\<close>

text \<open>Concrete records, pages, remote sides and stores on which the theorems are run.\<close>

definition example_row :: row where
  "example_row =
     \<lparr>Date = ''January 1 2019'', URL = ''https://hubblesite.org/image/1'',
      Name = ''Leo IV'', Caption = ''A dwarf galaxy'', Year = ''2012'', Image = ''leo.jpg''\<rparr>"

definition example_page :: doc where
  "example_page =
     \<lparr>metadataEval = Inr \<lparr>pageTitle = Some ''Leo IV'', pageDescription = None,
                          meta_fields = (\<lambda>f. None),
                          downloads =
                            [\<lparr>url = ''https://assets/full'', asset_type = ''jpg'',
                              asset_size = Some ''2 MB'', resolution = Some ''3000x2400''\<rparr>,
                             \<lparr>url = ''https://assets/plain'', asset_type = ''jpg'',
                              asset_size = None, resolution = None\<rparr>]\<rparr>,
      assetLinkEval = Inr None,
      videoEval = Inl ''not evaluated''\<rparr>"

text \<open>A remote side where pages open and every fetch is refused.\<close>

definition env_no_assets :: env where
  "env_no_assets =
     \<lparr>goto = (\<lambda>u t. NavOk ''https://science.nasa.gov/image/1'' example_page),
      fetch = (\<lambda>u t. Response 503 (Inl ''unavailable'')),
      now = (\<lambda>t. ''2024-01-01T00:00:00.000Z''),
      write_answer = (\<lambda>f n t. WriteOk), mkdir_answer = (\<lambda>f t. None)\<rparr>"

text \<open>A remote side where pages open and every fetch succeeds.\<close>

definition env_up :: env where
  "env_up =
     \<lparr>goto = (\<lambda>u t. NavOk ''https://science.nasa.gov/image/1'' example_page),
      fetch = (\<lambda>u t. Response 200 (Inr (Unparsable ''bytes''))),
      now = (\<lambda>t. ''2024-01-01T00:00:00.000Z''),
      write_answer = (\<lambda>f n t. WriteOk), mkdir_answer = (\<lambda>f t. None)\<rparr>"

text \<open>A remote side where no page opens.\<close>

definition env_down :: env where
  "env_down =
     \<lparr>goto = (\<lambda>u t. NavError ''Timeout 60000ms exceeded''),
      fetch = (\<lambda>u t. NetworkError ''fetch failed''),
      now = (\<lambda>t. ''2024-01-01T00:00:00.000Z''),
      write_answer = (\<lambda>f n t. WriteOk), mkdir_answer = (\<lambda>f t. None)\<rparr>"

definition state_empty :: state where
  "state_empty = \<lparr>files = [], clock = 0, trace = []\<rparr>"

definition state_metadata_only :: state where
  "state_metadata_only =
     \<lparr>files = [(''01-01'', [(''metadata.json'', JsonText (JObj []))])], clock = 0, trace = []\<rparr>"

definition state_complete :: state where
  "state_complete =
     \<lparr>files = [(''01-01'', [(''metadata.json'', JsonText (JObj [])),
                             (''full.jpg'', Unparsable ''bytes'')])],
      clock = 0, trace = []\<rparr>"

definition state_corrupt :: state where
  "state_corrupt =
     \<lparr>files = [(''01-01'', [(''metadata.json'', Unparsable ''{ date: Janu'')])],
      clock = 0, trace = []\<rparr>"



text \<open>A remote side where one asset is refused and every other fetch succeeds.\<close>

definition env_partial :: env where
  "env_partial =
     \<lparr>goto = (\<lambda>u t. NavOk ''https://science.nasa.gov/image/1'' example_page),
      fetch = (\<lambda>u t. if u = ''https://assets/a'' then NetworkError ''fetch failed''
                      else Response 200 (Inr (Unparsable ''bytes''))),
      now = (\<lambda>t. ''2024-01-01T00:00:00.000Z''),
      write_answer = (\<lambda>f n t. WriteOk), mkdir_answer = (\<lambda>f t. None)\<rparr>"

text \<open>
  A remote side where every fetch succeeds and a store that rejects every write part-way,
  with two bytes left, until moment 3, and accepts writes afterwards.
\<close>

definition env_store_breaks :: env where
  "env_store_breaks =
     \<lparr>goto = (\<lambda>u t. NavOk ''https://science.nasa.gov/image/1'' example_page),
      fetch = (\<lambda>u t. Response 200 (Inr (Unparsable ''bytes''))),
      now = (\<lambda>t. ''2024-01-01T00:00:00.000Z''),
      write_answer = (\<lambda>f n t. if t \<le> 3 then WriteBroken ''ENOSPC'' ''by'' else WriteOk),
      mkdir_answer = (\<lambda>f t. None)\<rparr>"



definition state_no_final_url :: state where
  "state_no_final_url =
     \<lparr>files = [(''01-01'', [(''metadata.json'',
                               JsonText (JObj [(''date'', JStr ''January 1 2019'')]))])],
      clock = 0, trace = []\<rparr>"

section \<open>Strings and numbers: lemmas\<close>


lemma split_on_append: "c \<notin> set a \<Longrightarrow> split_on c (a @ c # b) = a # split_on c b"
  by (induction a) auto

lemma split_on_nonempty: "split_on c s \<noteq> []"
  by (induction s) (auto split: list.splits)

lemma lt10_cases: "d < 10 \<Longrightarrow> d \<in> {0,1,2,3,4,5,6,7,8,9::nat}"
  by auto

lemma digit_val_digit_char: "d < 10 \<Longrightarrow> digit_val 10 (digit_char d) = Some d"
  by (drule lt10_cases) (auto simp add: digit_val_def digit_char_def Let_def)

lemma digit_char_plain:
  "d < 10 \<Longrightarrow> digit_char d \<noteq> CHR '' '' \<and> digit_char d \<noteq> CHR ''x'' \<and> digit_char d \<noteq> CHR ''X''
     \<and> digit_char d \<noteq> CHR ''-'' \<and> digit_char d \<noteq> CHR ''+'' \<and> \<not> is_ws (digit_char d)"
  by (drule lt10_cases) (auto simp add: digit_char_def is_ws_def)

lemma string_of_nat_digits:
  "\<exists>ds. ds \<noteq> [] \<and> (\<forall>d\<in>set ds. d < 10) \<and> string_of_nat n = map digit_char ds
        \<and> digits_value 10 ds = n"
proof (induction n rule: string_of_nat.induct)
  case (1 n)
  show ?case
  proof (cases "n < 10")
    case True
    then have "string_of_nat n = map digit_char [n]" "digits_value 10 [n] = n"
      by (simp_all add: string_of_nat.simps digits_value_def)
    with True show ?thesis by (intro exI[of _ "[n]"]) simp
  next
    case False
    with 1 obtain ds where ds: "ds \<noteq> []" "\<forall>d\<in>set ds. d < 10"
      "string_of_nat (n div 10) = map digit_char ds" "digits_value 10 ds = n div 10"
      by auto
    have "string_of_nat n = map digit_char (ds @ [n mod 10])"
      using False ds(3) by (subst string_of_nat.simps) simp
    moreover have "digits_value 10 (ds @ [n mod 10]) = n"
      using ds(4) by (simp add: digits_value_def)
    ultimately show ?thesis
      using ds(1,2) by (intro exI[of _ "ds @ [n mod 10]"]) auto
  qed
qed

lemma read_digits_map: "\<forall>d\<in>set ds. d < 10 \<Longrightarrow> read_digits 10 (map digit_char ds) = ds"
  by (induction ds) (auto simp add: digit_val_digit_char)

lemma parseInt_plain:
  assumes "s = c # r" "\<not> is_ws c" "c \<noteq> CHR ''-''" "c \<noteq> CHR ''+''"
    and "take 2 s \<noteq> ''0x''" "take 2 s \<noteq> ''0X''" "read_digits 10 s = ds" "ds \<noteq> []"
  shows "parseInt s = Some (int (digits_value 10 ds))"
proof -
  have dw: "dropWhile is_ws s = s" using assms(1,2) by simp
  have neg: "(case s of [] \<Rightarrow> False | c # _ \<Rightarrow> c = CHR ''-'') = False"
    using assms(1,3) by simp
  have s2: "(case s of [] \<Rightarrow> [] | c # r \<Rightarrow> if c = CHR ''-'' \<or> c = CHR ''+'' then r else s) = s"
    using assms(1,3,4) by simp
  have hex: "(take 2 s = ''0x'' \<or> take 2 s = ''0X'') = False"
    using assms(5,6) by simp
  show ?thesis
    unfolding parseInt_def Let_def dw neg s2 hex using assms(7,8) by simp
qed

lemma parseInt_digits:
  assumes "ds \<noteq> []" "\<forall>d\<in>set ds. d < 10"
  shows "parseInt (map digit_char ds) = Some (int (digits_value 10 ds))"
proof -
  obtain d ds' where ds: "ds = d # ds'" using assms(1) by (cases ds) auto
  have d: "d < 10" using assms(2) ds by simp
  have nohex: "take 2 (map digit_char ds) \<noteq> ''0x'' \<and> take 2 (map digit_char ds) \<noteq> ''0X''"
  proof (cases ds')
    case Nil then show ?thesis using ds by simp
  next
    case (Cons e es)
    then have "e < 10" using assms(2) ds by simp
    then show ?thesis using ds Cons digit_char_plain[of e] by auto
  qed
  show ?thesis
  proof (rule parseInt_plain)
    show "map digit_char ds = digit_char d # map digit_char ds'" using ds by simp
    show "\<not> is_ws (digit_char d)" "digit_char d \<noteq> CHR ''-''" "digit_char d \<noteq> CHR ''+''"
      using digit_char_plain[OF d] by simp_all
    show "take 2 (map digit_char ds) \<noteq> ''0x''" "take 2 (map digit_char ds) \<noteq> ''0X''"
      using nohex by simp_all
    show "read_digits 10 (map digit_char ds) = ds" by (rule read_digits_map[OF assms(2)])
    show "ds \<noteq> []" by (rule assms(1))
  qed
qed

lemma parseInt_string_of_nat: "parseInt (string_of_nat n) = Some (int n)"
  using string_of_nat_digits[of n] parseInt_digits by metis


lemma string_of_nat_no:
  assumes "c \<in> set (string_of_nat n)"
  shows "c \<noteq> CHR '' '' \<and> c \<noteq> CHR ''x''"
proof -
  obtain ds where ds: "\<forall>d\<in>set ds. d < 10" "string_of_nat n = map digit_char ds"
    using string_of_nat_digits[of n] by blast
  then obtain d where "d \<in> set ds" "c = digit_char d" using assms by auto
  then show ?thesis using ds(1) digit_char_plain[of d] by simp
qed

lemma string_of_nat_nonempty: "string_of_nat n \<noteq> []"
  using string_of_nat_digits[of n] by auto

section \<open>The folder key\<close>







section \<open>File names of assets\<close>

lemma width_of_resolution:
  "split_on CHR ''x'' (string_of_nat w @ ''x'' @ h) = string_of_nat w # split_on CHR ''x'' h"
proof -
  have "CHR ''x'' \<notin> set (string_of_nat w)" using string_of_nat_no by blast
  then show ?thesis using split_on_append[of "CHR ''x''" "string_of_nat w" h] by simp
qed

lemma asset_filename_width:
  assumes "asset_type a \<noteq> ''pdf''" and "resolution a = Some (string_of_nat w @ ''x'' @ h)"
  shows "asset_filename a n =
           (if 2000 \<le> w then ''full.jpg'' else if 800 \<le> w then ''thumb_1000.jpg''
            else if 300 \<le> w then ''thumb_400.jpg'' else ''thumb_200.jpg'')"
proof -
  obtain c cs where cs: "string_of_nat w @ ''x'' @ h = c # cs"
    using string_of_nat_nonempty[of w] by (cases "string_of_nat w") auto
  have sp: "split_on CHR ''x'' (c # cs) = string_of_nat w # split_on CHR ''x'' h"
    using width_of_resolution[of w h] cs by simp
  show ?thesis
    unfolding asset_filename_def using assms(1)
    by (simp only: assms(2) cs option.case list.case sp parseInt_string_of_nat js_ge_def if_False)
       simp
qed

text \<open>
  C3. An asset of type \<open>pdf\<close> is named \<open>image.pdf\<close> whatever its resolution. Any other
  asset with a resolution \<open>WxH\<close> is named by its width \<open>W\<close>: \<open>full.jpg\<close> from 2000,
  \<open>thumb_1000.jpg\<close> from 800, \<open>thumb_400.jpg\<close> from 300, \<open>thumb_200.jpg\<close> below. Without
  a resolution it is named \<open>image_n.jpg\<close>, \<open>n\<close> being the count of downloads so far. So
  2400x3000, 1000x800, 500x400 and 150x150 give the four names in this order.
\<close>

theorem asset_filename_classification:
  "(asset_type a = ''pdf'' \<longrightarrow> asset_filename a n = ''image.pdf'')
   \<and> (asset_type a \<noteq> ''pdf'' \<and> resolution a = Some (string_of_nat w @ ''x'' @ h) \<longrightarrow>
        asset_filename a n =
          (if 2000 \<le> w then ''full.jpg'' else if 800 \<le> w then ''thumb_1000.jpg''
           else if 300 \<le> w then ''thumb_400.jpg'' else ''thumb_200.jpg''))
   \<and> (asset_type a \<noteq> ''pdf'' \<and> resolution a = None \<longrightarrow>
        asset_filename a n = ''image_'' @ string_of_nat n @ ''.jpg'')
   \<and> asset_filename (a\<lparr>asset_type := ''jpg'', resolution := Some ''2400x3000''\<rparr>) n = ''full.jpg''
   \<and> asset_filename (a\<lparr>asset_type := ''jpg'', resolution := Some ''1000x800''\<rparr>) n = ''thumb_1000.jpg''
   \<and> asset_filename (a\<lparr>asset_type := ''jpg'', resolution := Some ''500x400''\<rparr>) n = ''thumb_400.jpg''
   \<and> asset_filename (a\<lparr>asset_type := ''jpg'', resolution := Some ''150x150''\<rparr>) n = ''thumb_200.jpg''"
proof -
  have n2400: "string_of_nat 2400 = ''2400''" and n1000: "string_of_nat 1000 = ''1000''"
    and n500: "string_of_nat 500 = ''500''" and n150: "string_of_nat 150 = ''150''"
    by (simp_all add: string_of_nat.simps digit_char_def)
  have e1: "asset_filename (a\<lparr>asset_type := ''jpg'', resolution := Some ''2400x3000''\<rparr>) n = ''full.jpg''"
    using asset_filename_width[of "a\<lparr>asset_type := ''jpg'', resolution := Some ''2400x3000''\<rparr>" 2400 "''3000''" n]
    by (simp add: n2400)
  have e2: "asset_filename (a\<lparr>asset_type := ''jpg'', resolution := Some ''1000x800''\<rparr>) n = ''thumb_1000.jpg''"
    using asset_filename_width[of "a\<lparr>asset_type := ''jpg'', resolution := Some ''1000x800''\<rparr>" 1000 "''800''" n]
    by (simp add: n1000)
  have e3: "asset_filename (a\<lparr>asset_type := ''jpg'', resolution := Some ''500x400''\<rparr>) n = ''thumb_400.jpg''"
    using asset_filename_width[of "a\<lparr>asset_type := ''jpg'', resolution := Some ''500x400''\<rparr>" 500 "''400''" n]
    by (simp add: n500)
  have e4: "asset_filename (a\<lparr>asset_type := ''jpg'', resolution := Some ''150x150''\<rparr>) n = ''thumb_200.jpg''"
    using asset_filename_width[of "a\<lparr>asset_type := ''jpg'', resolution := Some ''150x150''\<rparr>" 150 "''150''" n]
    by (simp add: n150)
  have p1: "asset_type a = ''pdf'' \<longrightarrow> asset_filename a n = ''image.pdf''"
    by (simp add: asset_filename_def)
  have p3: "asset_type a \<noteq> ''pdf'' \<and> resolution a = None \<longrightarrow>
        asset_filename a n = ''image_'' @ string_of_nat n @ ''.jpg''"
    by (simp add: asset_filename_def)
  show ?thesis
    using p1 p3 e1 e2 e3 e4 asset_filename_width[of a w h n] by blast
qed

theorem asset_filename_classification_witness:
  "asset_filename \<lparr>url = ''u'', asset_type = ''pdf'', asset_size = None,
                    resolution = Some ''2400x3000''\<rparr> 0 = ''image.pdf''
   \<and> asset_filename \<lparr>url = ''u'', asset_type = ''jpg'', asset_size = None,
                      resolution = Some ''2400x3000''\<rparr> 0 = ''full.jpg''
   \<and> asset_filename \<lparr>url = ''u'', asset_type = ''jpg'', asset_size = None,
                      resolution = None\<rparr> 3 = ''image_3.jpg''"
proof -
  have n: "string_of_nat 2400 = ''2400''" "string_of_nat 3 = ''3''"
    by (simp_all add: string_of_nat.simps digit_char_def)
  show ?thesis
    using asset_filename_classification
            [of "\<lparr>url = ''u'', asset_type = ''pdf'', asset_size = None,
                  resolution = Some ''2400x3000''\<rparr>" 0 2400 "''3000''"]
          asset_filename_classification
            [of "\<lparr>url = ''u'', asset_type = ''jpg'', asset_size = None,
                  resolution = Some ''2400x3000''\<rparr>" 0 2400 "''3000''"]
          asset_filename_classification
            [of "\<lparr>url = ''u'', asset_type = ''jpg'', asset_size = None,
                  resolution = None\<rparr>" 3 0 "[]"]
    by (simp add: n)
qed


section \<open>The store and the trace: lemmas\<close>

lemma endsWith_suffix: "endsWith s suf = suffix suf s"
proof
  assume "endsWith s suf"
  then have "s = take (length s - length suf) s @ suf"
    unfolding endsWith_def by (metis append_take_drop_id)
  then show "suffix suf s" unfolding suffix_def by blast
next
  assume "suffix suf s"
  then obtain zs where "s = zs @ suf" unfolding suffix_def by blast
  then show "endsWith s suf" unfolding endsWith_def by simp
qed

lemma already_processed_complete: "already_processed fs folder = folder_complete fs folder"
proof (cases "map_of fs folder")
  case None
  then show ?thesis
    by (simp add: already_processed_def folder_complete_def access_def)
next
  case (Some d)
  have m: "(map_of d ''metadata.json'' \<noteq> None) = (''metadata.json'' \<in> fst ` set d)"
    by (simp add: map_of_eq_None_iff)
  have i: "hasImages (map fst d) = (\<exists>f \<in> fst ` set d. suffix ''.jpg'' f \<or> suffix ''.pdf'' f)"
    unfolding hasImages_def list_ex_iff endsWith_suffix by simp
  show ?thesis
    unfolding already_processed_def folder_complete_def access_def readdir_def
    by (simp only: Some option.case option.map m i if_bool_eq_conj) blast
qed

lemma extends_refl: "extends f s s"
  unfolding extends_def by auto

lemma extends_trans:
  assumes "extends f s1 s2" and "extends f s2 s3"
  shows "extends f s1 s3"
proof -
  obtain e1 where e1: "trace s2 = trace s1 @ e1" "\<forall>e \<in> set e1. \<forall>k. touches k e \<longrightarrow> k = f"
    using assms(1) unfolding extends_def by blast
  obtain e2 where e2: "trace s3 = trace s2 @ e2" "\<forall>e \<in> set e2. \<forall>k. touches k e \<longrightarrow> k = f"
    using assms(2) unfolding extends_def by blast
  have t: "trace s3 = trace s1 @ (e1 @ e2) \<and> (\<forall>e \<in> set (e1 @ e2). \<forall>k. touches k e \<longrightarrow> k = f)"
    using e1 e2 by auto
  have o: "\<forall>k. k \<noteq> f \<longrightarrow> map_of (files s3) k = map_of (files s1) k"
    using assms unfolding extends_def by simp
  have g: "\<forall>k d. map_of (files s1) k = Some d \<longrightarrow>
             (\<exists>d'. map_of (files s3) k = Some d' \<and> fst ` set d \<subseteq> fst ` set d')"
  proof (intro allI impI)
    fix k d assume "map_of (files s1) k = Some d"
    then obtain d2 where d2: "map_of (files s2) k = Some d2" "fst ` set d \<subseteq> fst ` set d2"
      using assms(1) unfolding extends_def by blast
    then obtain d3 where "map_of (files s3) k = Some d3" "fst ` set d2 \<subseteq> fst ` set d3"
      using assms(2) unfolding extends_def by blast
    with d2 show "\<exists>d'. map_of (files s3) k = Some d' \<and> fst ` set d \<subseteq> fst ` set d'" by blast
  qed
  show ?thesis unfolding extends_def using t o g by blast
qed

lemma extends_complete:
  assumes "extends f s s'" and "folder_complete (files s) k"
  shows "folder_complete (files s') k"
proof -
  obtain d where d: "map_of (files s) k = Some d" "''metadata.json'' \<in> fst ` set d"
      "\<exists>x \<in> fst ` set d. suffix ''.jpg'' x \<or> suffix ''.pdf'' x"
    using assms(2) unfolding folder_complete_def by (cases "map_of (files s) k") simp_all
  obtain d' where d': "map_of (files s') k = Some d'" "fst ` set d \<subseteq> fst ` set d'"
    using assms(1) d(1) unfolding extends_def by blast
  have "''metadata.json'' \<in> fst ` set d'" using d(2) d'(2) by blast
  moreover have "\<exists>x \<in> fst ` set d'. suffix ''.jpg'' x \<or> suffix ''.pdf'' x"
    using d(3) d'(2) by blast
  ultimately show ?thesis unfolding folder_complete_def by (simp add: d'(1))
qed

lemma extends_events:
  assumes "extends f s s'"
  shows "\<exists>evs. trace s' = trace s @ evs \<and> (\<forall>e \<in> set evs. \<forall>k. touches k e \<longrightarrow> k = f)"
  using assms unfolding extends_def by blast

lemma extends_only_events:
  assumes "trace s' = trace s @ evs" and "\<forall>e \<in> set evs. \<forall>k. touches k e \<longrightarrow> k = f"
    and "files s' = files s"
  shows "extends f s s'"
  unfolding extends_def using assms by auto

lemma extends_delay: "extends f s (delay ms s)"
  by (rule extends_only_events[of _ _ "[Delay ms]"]) (simp_all add: delay_def touches_def)

lemma navigate_effect:
  assumes "navigate E u s = (r, s1)"
  shows "files s1 = files s \<and> trace s1 = trace s @ [Goto u] \<and> clock s1 = Suc (clock s)"
  using assms unfolding navigate_def Let_def by (auto split: nav_result.splits)

lemma extends_navigate: "navigate E u s = (r, s1) \<Longrightarrow> extends f s s1"
  using navigate_effect[of E u s r s1]
  by (intro extends_only_events[of _ _ "[Goto u]"]) (simp_all add: touches_def)

lemma mkdir_Inl:
  assumes "mkdir E f s = (Inl msg, s1)"
  shows "s1 = s \<and> mkdir_answer E f (clock s) = Some msg"
  using assms unfolding mkdir_def by (auto split: option.splits)

lemma mkdir_Inr:
  assumes "mkdir E f s = (Inr x, s1)"
  shows "mkdir_answer E f (clock s) = None \<and> map_of (files s1) f \<noteq> None
         \<and> trace s1 = trace s @ [Mkdir f] \<and> clock s1 = clock s"
  using assms unfolding mkdir_def by (auto simp add: update_conv' split: option.splits)

lemma mkdir_ok:
  assumes "mkdir_answer E f (clock s) = None"
  shows "\<exists>s1. mkdir E f s = (Inr (), s1)"
  using assms unfolding mkdir_def by simp

lemma extends_mkdir:
  assumes "mkdir E f s = (r, s1)"
  shows "extends f s s1"
proof (cases "mkdir_answer E f (clock s)")
  case (Some msg)
  then have "s1 = s" using assms unfolding mkdir_def by simp
  then show ?thesis by (simp add: extends_refl)
next
  case None
  then have s1: "s1 = s\<lparr>files := (case map_of (files s) f of
                                   None \<Rightarrow> AList.update f [] (files s)
                                 | Some _ \<Rightarrow> files s),
                        trace := trace s @ [Mkdir f]\<rparr>"
    using assms unfolding mkdir_def by simp
  show ?thesis
    unfolding extends_def s1
    by (auto simp add: touches_def update_conv' split: option.splits)
qed

lemma writeFile_ok:
  assumes "map_of (files s) f = Some d" and "write_answer E f n (clock s) = WriteOk"
  shows "\<exists>s1. writeFile E f n c s = (Inr (), s1) \<and> readFile (files s1) f n = Some c
          \<and> trace s1 = trace s @ [Wrote f n] \<and> clock s1 = clock s"
  using assms unfolding writeFile_def readFile_def by (simp add: update_conv')

lemma writeFile_Inr:
  assumes "writeFile E f n c s = (Inr x, s1)"
  shows "map_of (files s) f \<noteq> None \<and> write_answer E f n (clock s) = WriteOk
         \<and> readFile (files s1) f n = Some c
         \<and> trace s1 = trace s @ [Wrote f n] \<and> clock s1 = clock s"
  using assms unfolding writeFile_def readFile_def
  by (auto simp add: update_conv' split: option.splits write_result.splits)

lemma writeFile_Inl:
  assumes "writeFile E f n c s = (Inl msg, s1)"
  shows "clock s1 = clock s
         \<and> ((s1 = s \<and> (map_of (files s) f = None \<or> write_answer E f n (clock s) = WriteRefused msg))
             \<or> (\<exists>left. map_of (files s) f \<noteq> None
                   \<and> write_answer E f n (clock s) = WriteBroken msg left
                   \<and> readFile (files s1) f n = Some (Unparsable left)
                   \<and> trace s1 = trace s @ [Broke f n]))"
  using assms unfolding writeFile_def readFile_def
  by (auto simp add: update_conv' split: option.splits write_result.splits)

lemma extends_writeFile:
  assumes "writeFile E f n c s = (r, s1)"
  shows "extends f s s1"
proof (cases "map_of (files s) f")
  case None
  then have "s1 = s" using assms unfolding writeFile_def by simp
  then show ?thesis by (simp add: extends_refl)
next
  case (Some d)
  show ?thesis
  proof (cases "write_answer E f n (clock s)")
    case WriteOk
    then have s1: "s1 = s\<lparr>files := AList.update f (AList.update n c d) (files s),
                          trace := trace s @ [Wrote f n]\<rparr>"
      using assms Some unfolding writeFile_def by auto
    show ?thesis
      unfolding extends_def s1 using Some
      by (auto simp add: touches_def update_conv' dom_update)
  next
    case (WriteRefused msg)
    then have "s1 = s" using assms Some unfolding writeFile_def by simp
    then show ?thesis by (simp add: extends_refl)
  next
    case (WriteBroken msg left)
    then have s1: "s1 = s\<lparr>files := AList.update f (AList.update n (Unparsable left) d) (files s),
                          trace := trace s @ [Broke f n]\<rparr>"
      using assms Some unfolding writeFile_def by auto
    show ?thesis
      unfolding extends_def s1 using Some
      by (auto simp add: touches_def update_conv' dom_update)
  qed
qed

lemma extends_folder_kept:
  "extends f s s' \<Longrightarrow> map_of (files s) k \<noteq> None \<Longrightarrow> map_of (files s') k \<noteq> None"
  unfolding extends_def by fastforce

lemma extends_folder_same:
  assumes "extends f s s'" and "map_of (files s') f \<noteq> None \<longrightarrow> map_of (files s) f \<noteq> None"
  shows "(map_of (files s') k \<noteq> None) = (map_of (files s) k \<noteq> None)"
proof (cases "k = f")
  case True
  then show ?thesis using assms extends_folder_kept[OF assms(1), of f] by blast
next
  case False
  then show ?thesis using assms(1) unfolding extends_def by simp
qed


section \<open>The retry loop\<close>

lemma attempt_kind_folder:
  "(map_of fs f \<noteq> None) = (map_of fs' f \<noteq> None) \<Longrightarrow>
   attempt_kind E u f n fs c = attempt_kind E u f n fs' c"
  unfolding attempt_kind_def
  by (cases "map_of fs f"; cases "map_of fs' f")
     (simp_all split: fetch_result.splits sum.splits)

lemma attempt_events_folder:
  "(map_of fs f \<noteq> None) = (map_of fs' f \<noteq> None) \<Longrightarrow>
   attempt_events E u f n fs c = attempt_events E u f n fs' c"
  using attempt_kind_folder[of fs f fs' E u n c] by (simp add: attempt_events_def)

lemma extends_download_attempt:
  assumes "download_attempt E u f n s = (r, s1)"
  shows "extends f s s1"
proof -
  let ?s0 = "s\<lparr>clock := Suc (clock s), trace := trace s @ [Fetch u f n]\<rparr>"
  have a: "extends f s ?s0"
    by (rule extends_only_events[of _ _ "[Fetch u f n]"]) (simp_all add: touches_def)
  have "s1 = ?s0 \<or> (\<exists>buf. writeFile E f n buf ?s0 = (r, s1))"
    using assms unfolding download_attempt_def Let_def
    by (auto split: fetch_result.splits if_splits sum.splits)
  then show ?thesis
    using a extends_writeFile extends_trans by blast
qed

lemma download_attempt_kind:
  assumes "download_attempt E u f n s = (r, s1)"
  shows "clock s1 = Suc (clock s)
         \<and> trace s1 = trace s @ attempt_events E u f n (files s) (clock s)
         \<and> (map_of (files s1) f \<noteq> None) = (map_of (files s) f \<noteq> None)
         \<and> (case attempt_kind E u f n (files s) (clock s) of
               Succeeds buf \<Rightarrow> (\<exists>x. r = Inr x) \<and> readFile (files s1) f n = Some buf
             | Leaves left \<Rightarrow> (\<exists>m. r = Inl m) \<and> readFile (files s1) f n = Some (Unparsable left)
             | Nothing \<Rightarrow> (\<exists>m. r = Inl m) \<and> files s1 = files s)"
  using assms
  unfolding download_attempt_def attempt_kind_def attempt_events_def writeFile_def
    readFile_def Let_def
  by (auto simp add: update_conv'
           split: fetch_result.splits sum.splits option.splits write_result.splits if_splits)

lemma download_attempt_Inr:
  assumes "download_attempt E u f n s = (Inr x, s1)"
  shows "\<exists>buf. attempt_kind E u f n (files s) (clock s) = Succeeds buf
           \<and> readFile (files s1) f n = Some buf"
  using download_attempt_kind[OF assms]
  by (cases "attempt_kind E u f n (files s) (clock s)") auto

lemma download_attempt_Inl:
  assumes "download_attempt E u f n s = (Inl m, s1)"
  shows "(\<forall>buf. attempt_kind E u f n (files s) (clock s) \<noteq> Succeeds buf)
         \<and> (attempt_kind E u f n (files s) (clock s) = Nothing \<longrightarrow> files s1 = files s)
         \<and> (\<forall>left. attempt_kind E u f n (files s) (clock s) = Leaves left
                \<longrightarrow> readFile (files s1) f n = Some (Unparsable left))"
  using download_attempt_kind[OF assms]
  by (cases "attempt_kind E u f n (files s) (clock s)") auto

lemma downloadFile_from_contract:
  assumes "downloadFile_from E u f n retries a s = (ok, s')"
    and "1 \<le> a" and "a \<le> Suc retries"
    and "clock s + 1 = c0 + a"
    and "(map_of (files s) f \<noteq> None) = (map_of fs0 f \<noteq> None)"
  shows "\<exists>k. a - 1 \<le> k \<and> k \<le> retries \<and> (a \<le> retries \<longrightarrow> a \<le> k)
           \<and> (ok \<longrightarrow> a \<le> k
                \<and> (\<exists>buf. attempt_kind E u f n fs0 (c0 + k - 1) = Succeeds buf
                      \<and> readFile (files s') f n = Some buf))
           \<and> (\<not> ok \<longrightarrow> k = retries)
           \<and> (\<forall>b buf. a \<le> b \<and> b \<le> k \<and> (b < k \<or> \<not> ok)
                 \<longrightarrow> attempt_kind E u f n fs0 (c0 + b - 1) \<noteq> Succeeds buf)
           \<and> trace s' = trace s
                @ concat (map (\<lambda>j. attempt_events E u f n fs0 (c0 + j - 1) @ [Delay (500 * j)])
                            [a..<k])
                @ (if a \<le> k then attempt_events E u f n fs0 (c0 + k - 1) else [])
           \<and> ((\<forall>b. a \<le> b \<and> b \<le> k \<longrightarrow> attempt_kind E u f n fs0 (c0 + b - 1) = Nothing)
                \<longrightarrow> files s' = files s)
           \<and> (\<forall>left. \<not> ok \<and> a \<le> k \<and> attempt_kind E u f n fs0 (c0 + k - 1) = Leaves left
                \<longrightarrow> readFile (files s') f n = Some (Unparsable left))"
  using assms
proof (induction E u f n retries a s arbitrary: ok s' rule: downloadFile_from.induct)
  case (1 E u f n retries a s)
  let ?K = "\<lambda>b. attempt_kind E u f n fs0 (c0 + b - 1)"
  let ?EV = "\<lambda>b. attempt_events E u f n fs0 (c0 + b - 1)"
  have eq: "(ok, s') =
     (if a \<le> retries then
        (case download_attempt E u f n s of
           (Inr _, s1) \<Rightarrow> (True, s1)
         | (Inl _, s1) \<Rightarrow>
             if a = retries then (False, s1)
             else downloadFile_from E u f n retries (Suc a) (delay (500 * a) s1))
      else (False, s))"
    using "1.prems"(1) downloadFile_from.simps[of E u f n retries a s] by simp
  have c: "clock s = c0 + a - 1" using "1.prems"(2,4) by simp
  have Ka: "attempt_kind E u f n (files s) (clock s) = ?K a"
    unfolding c by (rule attempt_kind_folder[OF "1.prems"(5)])
  have EVa: "attempt_events E u f n (files s) (clock s) = ?EV a"
    unfolding c by (rule attempt_events_folder[OF "1.prems"(5)])
  show ?case
  proof (cases "a \<le> retries")
    case False
    then have "ok = False" "s' = s" "a = Suc retries"
      using eq "1.prems" by simp_all
    then show ?thesis by (intro exI[of _ retries]) auto
  next
    case True
    obtain r s1 where att: "download_attempt E u f n s = (r, s1)"
      by (cases "download_attempt E u f n s")
    note ak = download_attempt_kind[OF att]
    have tr1: "trace s1 = trace s @ ?EV a" using ak EVa by simp
    show ?thesis
    proof (cases r)
      case (Inr x)
      then have res: "ok = True" "s' = s1" using eq True att by simp_all
      obtain buf where "?K a = Succeeds buf" "readFile (files s1) f n = Some buf"
        using download_attempt_Inr[OF att[unfolded Inr]] Ka by auto
      then show ?thesis
        using res tr1 True "1.prems"(2) by (intro exI[of _ a]) auto
    next
      case (Inl msg)
      note fl = download_attempt_Inl[OF att[unfolded Inl], unfolded Ka]
      show ?thesis
      proof (cases "a = retries")
        case True
        then have res: "ok = False" "s' = s1" using eq att Inl by simp_all
        have "\<forall>b buf. a \<le> b \<and> b \<le> a \<longrightarrow> ?K b \<noteq> Succeeds buf"
          using fl by (metis le_antisym)
        moreover have "(\<forall>b. a \<le> b \<and> b \<le> a \<longrightarrow> ?K b = Nothing) \<longrightarrow> files s1 = files s"
          using fl by blast
        moreover have "\<forall>left. ?K a = Leaves left
                         \<longrightarrow> readFile (files s1) f n = Some (Unparsable left)"
          using fl by blast
        ultimately show ?thesis
          using res tr1 True "1.prems"(2) by (intro exI[of _ a]) simp
      next
        case False
        let ?s2 = "delay (500 * a) s1"
        have rec: "downloadFile_from E u f n retries (Suc a) ?s2 = (ok, s')"
          using eq att Inl True False by simp
        have p: "1 \<le> Suc a" "Suc a \<le> Suc retries" "Suc a \<le> retries" using True False by simp_all
        have c2: "clock ?s2 + 1 = c0 + Suc a" using ak c "1.prems"(2) by (simp add: delay_def)
        have f2: "(map_of (files ?s2) f \<noteq> None) = (map_of fs0 f \<noteq> None)"
          using ak "1.prems"(5) by (simp add: delay_def)
        note ih = "1.IH"[OF True att[symmetric] Inl False rec p(1) p(2) c2 f2]
        then obtain k where kk: "Suc a - 1 \<le> k \<and> k \<le> retries \<and> (Suc a \<le> retries \<longrightarrow> Suc a \<le> k)
           \<and> (ok \<longrightarrow> Suc a \<le> k
                \<and> (\<exists>buf. ?K k = Succeeds buf \<and> readFile (files s') f n = Some buf))
           \<and> (\<not> ok \<longrightarrow> k = retries)
           \<and> (\<forall>b buf. Suc a \<le> b \<and> b \<le> k \<and> (b < k \<or> \<not> ok) \<longrightarrow> ?K b \<noteq> Succeeds buf)
           \<and> trace s' = trace ?s2
                @ concat (map (\<lambda>j. ?EV j @ [Delay (500 * j)]) [Suc a..<k])
                @ (if Suc a \<le> k then ?EV k else [])
           \<and> ((\<forall>b. Suc a \<le> b \<and> b \<le> k \<longrightarrow> ?K b = Nothing) \<longrightarrow> files s' = files ?s2)
           \<and> (\<forall>left. \<not> ok \<and> Suc a \<le> k \<and> ?K k = Leaves left
                \<longrightarrow> readFile (files s') f n = Some (Unparsable left))" ..
        have k1: "Suc a \<le> k" "k \<le> retries" using kk p(3) by simp_all
        have k2: "ok \<longrightarrow> (\<exists>buf. ?K k = Succeeds buf \<and> readFile (files s') f n = Some buf)"
          and k3: "\<not> ok \<longrightarrow> k = retries"
          and k4: "\<forall>b buf. Suc a \<le> b \<and> b \<le> k \<and> (b < k \<or> \<not> ok) \<longrightarrow> ?K b \<noteq> Succeeds buf"
          and k5: "trace s' = trace ?s2
                @ concat (map (\<lambda>j. ?EV j @ [Delay (500 * j)]) [Suc a..<k]) @ ?EV k"
          and k6: "(\<forall>b. Suc a \<le> b \<and> b \<le> k \<longrightarrow> ?K b = Nothing) \<longrightarrow> files s' = files ?s2"
          using kk k1 by simp_all
        have k7: "\<forall>left. \<not> ok \<and> ?K k = Leaves left
                     \<longrightarrow> readFile (files s') f n = Some (Unparsable left)"
          using kk k1(1) by blast
        have up: "[a..<k] = a # [Suc a..<k]" using k1(1) by (simp add: upt_conv_Cons)
        have t: "trace s' = trace s
                @ concat (map (\<lambda>j. ?EV j @ [Delay (500 * j)]) [a..<k]) @ ?EV k"
          using k5 tr1 up by (simp add: delay_def)
        have n: "\<forall>b buf. a \<le> b \<and> b \<le> k \<and> (b < k \<or> \<not> ok) \<longrightarrow> ?K b \<noteq> Succeeds buf"
        proof (intro allI impI)
          fix b buf assume b: "a \<le> b \<and> b \<le> k \<and> (b < k \<or> \<not> ok)"
          show "?K b \<noteq> Succeeds buf"
          proof (cases "b = a")
            case True
            then show ?thesis using fl by simp
          next
            case False
            then have "Suc a \<le> b" using b by simp
            then show ?thesis using k4 b by blast
          qed
        qed
        have fs: "(\<forall>b. a \<le> b \<and> b \<le> k \<longrightarrow> ?K b = Nothing) \<longrightarrow> files s' = files s"
        proof
          assume all: "\<forall>b. a \<le> b \<and> b \<le> k \<longrightarrow> ?K b = Nothing"
          then have "?K a = Nothing" using k1(1) by simp
          then have "files s1 = files s" using fl by simp
          moreover have "files s' = files ?s2" using k6 all by simp
          ultimately show "files s' = files s" by (simp add: delay_def)
        qed
        show ?thesis
          using k1 k2 k3 n t fs k7 by (intro exI[of _ k]) auto
      qed
    qed
  qed
qed

text \<open>
  C2, amended. \<open>downloadFile\<close> makes \<open>k\<close> fetch attempts, \<open>k\<close> at most \<open>retries\<close>, one after
  the other. An attempt succeeds exactly when the remote side answers its fetch with a status
  in 200..299 and a readable body, the folder exists and the store writes the whole body. The
  attempt that succeeds is the last one made: \<open>true\<close> is returned and the file holds the body
  of that answer. No attempt before the last succeeded, and each is followed by a pause of
  500 ms times its number. When no attempt succeeds all \<open>retries\<close> attempts are made, no
  pause follows the last one and \<open>false\<close> is returned (the function is total: nothing is
  raised). The events of the run are those of its attempts, as the remote side and the store
  answered each. The store is unchanged when no attempt got as far as a write the store
  began; when the write of the last attempt was rejected part-way, \<open>false\<close> is returned and
  the destination holds what that write left. The default number of attempts is 3.
\<close>

theorem downloadFile_retry_contract:
  assumes "downloadFile E u folder name retries s = (ok, s')"
  shows "(\<exists>k \<le> retries.
            (ok \<longrightarrow> 1 \<le> k
               \<and> (\<exists>buf. attempt_kind E u folder name (files s) (clock s + k - 1) = Succeeds buf
                     \<and> readFile (files s') folder name = Some buf))
          \<and> (\<not> ok \<longrightarrow> k = retries)
          \<and> (\<forall>b buf. 1 \<le> b \<and> b \<le> k \<and> (b < k \<or> \<not> ok)
                \<longrightarrow> attempt_kind E u folder name (files s) (clock s + b - 1) \<noteq> Succeeds buf)
          \<and> trace s' = trace s @ attempts_trace E u folder name (files s) (clock s) k
          \<and> ((\<forall>b. 1 \<le> b \<and> b \<le> k
                  \<longrightarrow> attempt_kind E u folder name (files s) (clock s + b - 1) = Nothing)
               \<longrightarrow> files s' = files s)
          \<and> (\<forall>left. \<not> ok \<and> 1 \<le> k
                  \<and> attempt_kind E u folder name (files s) (clock s + k - 1) = Leaves left
               \<longrightarrow> readFile (files s') folder name = Some (Unparsable left)))
         \<and> MAX_RETRIES = 3"
proof -
  have run: "downloadFile_from E u folder name retries 1 s = (ok, s')"
    using assms by (simp add: downloadFile_def)
  have c: "clock s + 1 = clock s + 1" by simp
  have "\<exists>k. 1 - 1 \<le> k \<and> k \<le> retries \<and> (1 \<le> retries \<longrightarrow> 1 \<le> k)
           \<and> (ok \<longrightarrow> 1 \<le> k
                \<and> (\<exists>buf. attempt_kind E u folder name (files s) (clock s + k - 1) = Succeeds buf
                      \<and> readFile (files s') folder name = Some buf))
           \<and> (\<not> ok \<longrightarrow> k = retries)
           \<and> (\<forall>b buf. 1 \<le> b \<and> b \<le> k \<and> (b < k \<or> \<not> ok)
                 \<longrightarrow> attempt_kind E u folder name (files s) (clock s + b - 1) \<noteq> Succeeds buf)
           \<and> trace s' = trace s
                @ concat (map (\<lambda>j. attempt_events E u folder name (files s) (clock s + j - 1)
                                    @ [Delay (500 * j)]) [1..<k])
                @ (if 1 \<le> k then attempt_events E u folder name (files s) (clock s + k - 1)
                   else [])
           \<and> ((\<forall>b. 1 \<le> b \<and> b \<le> k
                   \<longrightarrow> attempt_kind E u folder name (files s) (clock s + b - 1) = Nothing)
                \<longrightarrow> files s' = files s)
           \<and> (\<forall>left. \<not> ok \<and> 1 \<le> k
                   \<and> attempt_kind E u folder name (files s) (clock s + k - 1) = Leaves left
                \<longrightarrow> readFile (files s') folder name = Some (Unparsable left))"
    by (rule downloadFile_from_contract[OF run _ _ c]) simp_all
  then obtain k where k: "k \<le> retries"
    "ok \<longrightarrow> 1 \<le> k
       \<and> (\<exists>buf. attempt_kind E u folder name (files s) (clock s + k - 1) = Succeeds buf
             \<and> readFile (files s') folder name = Some buf)"
    "\<not> ok \<longrightarrow> k = retries"
    "\<forall>b buf. 1 \<le> b \<and> b \<le> k \<and> (b < k \<or> \<not> ok)
        \<longrightarrow> attempt_kind E u folder name (files s) (clock s + b - 1) \<noteq> Succeeds buf"
    "trace s' = trace s
       @ concat (map (\<lambda>j. attempt_events E u folder name (files s) (clock s + j - 1)
                           @ [Delay (500 * j)]) [1..<k])
       @ (if 1 \<le> k then attempt_events E u folder name (files s) (clock s + k - 1) else [])"
    "(\<forall>b. 1 \<le> b \<and> b \<le> k
         \<longrightarrow> attempt_kind E u folder name (files s) (clock s + b - 1) = Nothing)
      \<longrightarrow> files s' = files s"
    "\<forall>left. \<not> ok \<and> 1 \<le> k
         \<and> attempt_kind E u folder name (files s) (clock s + k - 1) = Leaves left
      \<longrightarrow> readFile (files s') folder name = Some (Unparsable left)"
    by blast
  have "(if 1 \<le> k then attempt_events E u folder name (files s) (clock s + k - 1) else [])
        = (if k = 0 then [] else attempt_events E u folder name (files s) (clock s + k - 1))"
    by auto
  then have t: "trace s' = trace s @ attempts_trace E u folder name (files s) (clock s) k"
    using k(5) unfolding attempts_trace_def by simp
  have "MAX_RETRIES = 3" by (simp add: MAX_RETRIES_def)
  then show ?thesis using k(1,2,3,4,6,7) t by blast
qed

theorem downloadFile_retry_contract_witness:
  "downloadFile env_down ''https://assets/full'' ''01-01'' ''full.jpg'' 3 state_metadata_only
   = (False,
      \<lparr>files = files state_metadata_only, clock = 3,
        trace = [Fetch ''https://assets/full'' ''01-01'' ''full.jpg'', Delay 500,
                 Fetch ''https://assets/full'' ''01-01'' ''full.jpg'', Delay 1000,
                 Fetch ''https://assets/full'' ''01-01'' ''full.jpg'']\<rparr>)
   \<and> (\<exists>k \<le> (3::nat).
         [Fetch ''https://assets/full'' ''01-01'' ''full.jpg'', Delay 500,
          Fetch ''https://assets/full'' ''01-01'' ''full.jpg'', Delay 1000,
          Fetch ''https://assets/full'' ''01-01'' ''full.jpg'']
         = attempts_trace env_down ''https://assets/full'' ''01-01'' ''full.jpg''
             (files state_metadata_only) 0 k)"
proof -
  have run: "downloadFile env_down ''https://assets/full'' ''01-01'' ''full.jpg'' 3
               state_metadata_only
   = (False,
      \<lparr>files = files state_metadata_only, clock = 3,
        trace = [Fetch ''https://assets/full'' ''01-01'' ''full.jpg'', Delay 500,
                 Fetch ''https://assets/full'' ''01-01'' ''full.jpg'', Delay 1000,
                 Fetch ''https://assets/full'' ''01-01'' ''full.jpg'']\<rparr>)"
    by (simp add: downloadFile_def downloadFile_from.simps download_attempt_def delay_def
          env_down_def state_metadata_only_def)
  have z: "clock state_metadata_only = 0" "trace state_metadata_only = []"
    by (simp_all add: state_metadata_only_def)
  show ?thesis
    using downloadFile_retry_contract[OF run] run z by auto
qed

text \<open>
  The claim C2 as it was stated fails in its last part: with a remote side that answers every
  fetch and a store that rejects the writes part-way, the three attempts fail, \<open>false\<close> is
  returned, and the destination, absent before, holds the bytes the last write left. The
  \<open>catch\<close> of \<open>downloadFile\<close> removes nothing.
\<close>

theorem failed_download_leaves_partial_file:
  "fst (downloadFile env_store_breaks ''https://assets/full'' ''01-01'' ''full.jpg'' 3
          state_metadata_only) = False
   \<and> readFile (files state_metadata_only) ''01-01'' ''full.jpg'' = None
   \<and> readFile (files (snd (downloadFile env_store_breaks ''https://assets/full'' ''01-01''
                              ''full.jpg'' 3 state_metadata_only))) ''01-01'' ''full.jpg''
       = Some (Unparsable ''by'')"
  by code_simp


section \<open>The download loop\<close>

lemma download_attempt_shape:
  assumes "download_attempt E u f n s = (r, s1)"
  shows "\<exists>pre. trace s1 = trace s @ pre @ (case r of Inl _ \<Rightarrow> [] | Inr _ \<Rightarrow> [Wrote f n])
           \<and> (\<forall>e \<in> set pre. partial_effect f n e)"
proof -
  note ak = download_attempt_kind[OF assms]
  show ?thesis
  proof (cases "attempt_kind E u f n (files s) (clock s)")
    case (Succeeds buf)
    then have "trace s1 = trace s @ [Fetch u f n] @ [Wrote f n]" "\<exists>x. r = Inr x"
      using ak by (simp_all add: attempt_events_def)
    then show ?thesis
      by (intro exI[of _ "[Fetch u f n]"]) (auto simp add: partial_effect_def mentions_def)
  next
    case (Leaves left)
    then have "trace s1 = trace s @ [Fetch u f n, Broke f n] @ []" "\<exists>m. r = Inl m"
      using ak by (simp_all add: attempt_events_def)
    then show ?thesis
      by (intro exI[of _ "[Fetch u f n, Broke f n]"])
         (auto simp add: partial_effect_def mentions_def)
  next
    case Nothing
    then have "trace s1 = trace s @ [Fetch u f n] @ []" "\<exists>m. r = Inl m"
      using ak by (simp_all add: attempt_events_def)
    then show ?thesis
      by (intro exI[of _ "[Fetch u f n]"]) (auto simp add: partial_effect_def mentions_def)
  qed
qed

lemma downloadFile_from_shape:
  "downloadFile_from E u f n retries a s = (ok, s') \<Longrightarrow>
   extends f s s'
   \<and> (\<exists>pre. trace s' = trace s @ pre @ (if ok then [Wrote f n] else [])
          \<and> (\<forall>e \<in> set pre. partial_effect f n e))"
proof (induction E u f n retries a s arbitrary: ok s' rule: downloadFile_from.induct)
  case (1 E u f n retries a s)
  have eq: "(ok, s') =
     (if a \<le> retries then
        (case download_attempt E u f n s of
           (Inr _, s1) \<Rightarrow> (True, s1)
         | (Inl _, s1) \<Rightarrow>
             if a = retries then (False, s1)
             else downloadFile_from E u f n retries (Suc a) (delay (500 * a) s1))
      else (False, s))"
    using "1.prems"(1) downloadFile_from.simps[of E u f n retries a s] by simp
  show ?case
  proof (cases "a \<le> retries")
    case False
    then have "ok = False" "s' = s" using eq by simp_all
    then show ?thesis by (simp add: extends_refl)
  next
    case True
    obtain r s1 where att: "download_attempt E u f n s = (r, s1)"
      by (cases "download_attempt E u f n s")
    note e1 = extends_download_attempt[OF att]
    obtain pre1 where p1:
      "trace s1 = trace s @ pre1 @ (case r of Inl _ \<Rightarrow> [] | Inr _ \<Rightarrow> [Wrote f n])"
      "\<forall>e \<in> set pre1. partial_effect f n e"
      using download_attempt_shape[OF att] by blast
    show ?thesis
    proof (cases r)
      case (Inr x)
      then have "ok = True" "s' = s1" using eq True att by simp_all
      then show ?thesis using e1 p1 Inr by auto
    next
      case (Inl msg)
      show ?thesis
      proof (cases "a = retries")
        case True
        then have "ok = False" "s' = s1" using eq att Inl by simp_all
        then show ?thesis using e1 p1 Inl by auto
      next
        case False
        let ?s2 = "delay (500 * a) s1"
        have rec: "downloadFile_from E u f n retries (Suc a) ?s2 = (ok, s')"
          using eq att Inl True False by simp
        note ih = "1.IH"[OF True att[symmetric] Inl False rec]
        then obtain pre2 where p2:
          "trace s' = trace ?s2 @ pre2 @ (if ok then [Wrote f n] else [])"
          "\<forall>e \<in> set pre2. partial_effect f n e"
          by blast
        have e: "extends f s s'"
          using e1 extends_delay[of f s1 "500 * a"] ih extends_trans by blast
        have d: "partial_effect f n (Delay (500 * a))"
          by (simp add: partial_effect_def mentions_def)
        have "trace s' = trace s @ (pre1 @ Delay (500 * a) # pre2)
                           @ (if ok then [Wrote f n] else [])"
          using p1(1) p2(1) Inl by (simp add: delay_def)
        moreover have "\<forall>e \<in> set (pre1 @ Delay (500 * a) # pre2). partial_effect f n e"
          using p1(2) p2(2) d by auto
        ultimately show ?thesis using e by blast
      qed
    qed
  qed
qed

lemma download_step_shape:
  assumes "download_step E f d c s = (name, ok, s1)"
  shows "name = asset_filename d c \<and> extends f s s1
         \<and> (\<exists>pre. trace s1 = trace s @ pre @ (if ok then [Wrote f name] else [])
                \<and> (\<forall>e \<in> set pre. partial_effect f name e))"
proof -
  have "name = asset_filename d c"
    and "downloadFile_from E (url d) f (asset_filename d c) MAX_RETRIES 1 s = (ok, s1)"
    using assms unfolding download_step_def downloadFile_def Let_def
    by (auto split: prod.splits)
  then show ?thesis using downloadFile_from_shape by blast
qed

lemma download_all_extends:
  "download_all E f ds c s = (n, log, s') \<Longrightarrow> extends f s s'"
proof (induction ds arbitrary: c s n log s')
  case Nil
  then show ?case by (simp add: extends_refl)
next
  case (Cons d ds)
  obtain name ok s1 where st: "download_step E f d c s = (name, ok, s1)"
    by (cases "download_step E f d c s") auto
  obtain n2 log2 s2 where rec:
    "download_all E f ds (if ok then Suc c else c) s1 = (n2, log2, s2)"
    by (cases "download_all E f ds (if ok then Suc c else c) s1") auto
  have "s' = s2" using Cons.prems st rec by simp
  then show ?case
    using download_step_shape[OF st] Cons.IH[OF rec] extends_trans by blast
qed








section \<open>One record\<close>

lemma navigate_and_extract_effect:
  assumes "navigate_and_extract E r s = (res, s')"
  shows "files s' = files s
         \<and> (\<exists>evs. trace s' = trace s @ Goto (URL r) # evs \<and> (\<forall>e \<in> set evs. \<forall>k. \<not> touches k e))"
  using assms unfolding navigate_and_extract_def navigate_def delay_def Let_def
  by (auto simp add: touches_def
           split: prod.splits sum.splits nav_result.splits option.splits list.splits if_splits)

lemma extends_navigate_and_extract:
  assumes "navigate_and_extract E r s = (res, s')"
  shows "extends f s s'"
proof -
  obtain evs where "files s' = files s" "trace s' = trace s @ Goto (URL r) # evs"
      "\<forall>e \<in> set evs. \<forall>k. \<not> touches k e"
    using navigate_and_extract_effect[OF assms] by blast
  then show ?thesis
    by (intro extends_only_events[of _ _ "Goto (URL r) # evs"]) (auto simp add: touches_def)
qed

lemma processRow_raises:
  "parseDateToFolder (Date r) = Inl e \<Longrightarrow> processRow E r i n s = (Inl e, s)"
  by (simp add: processRow_def)

lemma processRow_skips:
  assumes "parseDateToFolder (Date r) = Inr f" and "folder_complete (files s) f"
  shows "processRow E r i n s = (Inr Skipped, s)"
  using assms by (simp add: processRow_def already_processed_complete)

lemma processRow_works:
  assumes "parseDateToFolder (Date r) = Inr f" and "\<not> folder_complete (files s) f"
  shows "processRow E r i n s =
           (case process_try E r f s of
              (Inl msg, s1) \<Rightarrow> (Inr (Failed msg), s1)
            | (Inr _, s1) \<Rightarrow> (Inr Processed, s1))"
  using assms by (simp add: processRow_def already_processed_complete)

lemma extends_download_and_save:
  assumes "download_and_save E r f finalUrl pd s = (res, s')"
  shows "extends f s s'"
proof -
  obtain m s1 where mk: "mkdir E f s = (m, s1)" by (cases "mkdir E f s")
  note e1 = extends_mkdir[OF mk]
  show ?thesis
  proof (cases m)
    case (Inl msg)
    then have "s' = s1" using assms mk unfolding download_and_save_def by simp
    then show ?thesis using e1 by simp
  next
    case (Inr x)
    obtain n log s2 where dl: "download_all E f (downloads pd) 0 s1 = (n, log, s2)"
      by (cases "download_all E f (downloads pd) 0 s1") auto
    have "\<exists>md. writeFile E f ''metadata.json'' md s2 = (res, s')"
      using assms mk Inr dl unfolding download_and_save_def Let_def by auto
    then obtain md where w: "writeFile E f ''metadata.json'' md s2 = (res, s')" ..
    have "extends f s s2" by (rule extends_trans[OF e1 download_all_extends[OF dl]])
    then show ?thesis by (rule extends_trans[OF _ extends_writeFile[OF w]])
  qed
qed


lemma download_and_save_write:
  assumes "mkdir E f s = (Inr x, s1)"
    and "download_all E f (downloads pd) 0 s1 = (n, log, s2)"
  shows "download_and_save E r f finalUrl pd s
           = writeFile E f ''metadata.json''
               (JsonText (build_metadata r f finalUrl pd (now E (clock s)))) s2
         \<and> map_of (files s2) f \<noteq> None
         \<and> (\<exists>evs. trace s2 = trace s @ Mkdir f # evs)"
proof -
  note mk = mkdir_Inr[OF assms(1)]
  note e = download_all_extends[OF assms(2)]
  have a: "download_and_save E r f finalUrl pd s
           = writeFile E f ''metadata.json''
               (JsonText (build_metadata r f finalUrl pd (now E (clock s)))) s2"
    using assms mk unfolding download_and_save_def Let_def by simp
  have b: "map_of (files s2) f \<noteq> None" using extends_folder_kept[OF e] mk by blast
  obtain evs where "trace s2 = trace s1 @ evs" using extends_events[OF e] by blast
  then have "trace s2 = trace s @ Mkdir f # evs" using mk by simp
  then show ?thesis using a b by blast
qed

lemma download_and_save_ok:
  assumes "\<forall>t. mkdir_answer E f t = None"
    and "\<forall>t. write_answer E f ''metadata.json'' t = WriteOk"
  shows "\<exists>s' evs. download_and_save E r f finalUrl pd s = (Inr (), s')
           \<and> readFile (files s') f ''metadata.json''
               = Some (JsonText (build_metadata r f finalUrl pd (now E (clock s))))
           \<and> trace s' = trace s @ Mkdir f # evs @ [Wrote f ''metadata.json'']"
proof -
  obtain s1 where mk: "mkdir E f s = (Inr (), s1)" using mkdir_ok assms(1) by blast
  obtain n log s2 where dl: "download_all E f (downloads pd) 0 s1 = (n, log, s2)"
    by (cases "download_all E f (downloads pd) 0 s1") auto
  let ?md = "JsonText (build_metadata r f finalUrl pd (now E (clock s)))"
  note w = download_and_save_write[OF mk dl, of r finalUrl]
  then obtain d evs where d: "map_of (files s2) f = Some d" "trace s2 = trace s @ Mkdir f # evs"
    by blast
  obtain s' where s': "writeFile E f ''metadata.json'' ?md s2 = (Inr (), s')"
      "readFile (files s') f ''metadata.json'' = Some ?md"
      "trace s' = trace s2 @ [Wrote f ''metadata.json'']"
    using writeFile_ok[OF d(1), of E "''metadata.json''" ?md] assms(2) by blast
  have "trace s' = trace s @ Mkdir f # evs @ [Wrote f ''metadata.json'']"
    using s'(3) d(2) by simp
  then show ?thesis using w s'(1,2) by auto
qed

lemma process_try_effect:
  assumes "process_try E r f s = (res, s')"
  shows "extends f s s' \<and> (\<exists>evs. trace s' = trace s @ Goto (URL r) # evs)"
proof -
  obtain r1 s1 where ne: "navigate_and_extract E r s = (r1, s1)"
    by (cases "navigate_and_extract E r s")
  note e1 = extends_navigate_and_extract[OF ne, of f]
  obtain ev1 where ev1: "trace s1 = trace s @ Goto (URL r) # ev1"
    using navigate_and_extract_effect[OF ne] by blast
  show ?thesis
  proof (cases r1)
    case (Inl msg)
    then have "s' = s1" using assms ne unfolding process_try_def by simp
    then show ?thesis using e1 ev1 by blast
  next
    case (Inr p)
    obtain fu pd where p: "p = (fu, pd)" by (cases p)
    have ds: "download_and_save E r f fu pd s1 = (res, s')"
      using assms ne Inr p unfolding process_try_def by simp
    have e2: "extends f s1 s'" by (rule extends_download_and_save[OF ds])
    obtain ev2 where "trace s' = trace s1 @ ev2" using extends_events[OF e2] by blast
    then have "trace s' = trace s @ Goto (URL r) # (ev1 @ ev2)" using ev1 by simp
    then show ?thesis using e1 e2 extends_trans by blast
  qed
qed

lemma processRow_effect:
  assumes "processRow E r i n s = (res, s')" and "parseDateToFolder (Date r) = Inr f"
  shows "extends f s s' \<and> (\<exists>x. res = Inr x)"
proof (cases "folder_complete (files s) f")
  case True
  have "res = Inr Skipped" "s' = s"
    using processRow_skips[OF assms(2) True, of E i n] assms(1) by simp_all
  then show ?thesis by (simp add: extends_refl)
next
  case False
  obtain r1 s1 where pt: "process_try E r f s = (r1, s1)" by (cases "process_try E r f s")
  have "s' = s1 \<and> (\<exists>x. res = Inr x)"
    using processRow_works[OF assms(2) False, of E i n] assms(1) pt by (cases r1) auto
  then show ?thesis using process_try_effect[OF pt] by blast
qed

text \<open>
  C1. A record is skipped exactly when its folder is complete: it holds \<open>metadata.json\<close>
  and an entry whose name ends in \<open>.jpg\<close> or \<open>.pdf\<close>. A skipped record leaves the world as
  it was: no navigation, no fetch, no write. A record whose folder is not complete, as one
  holding \<open>metadata.json\<close> and no such entry, is processed again: the first thing done is the
  navigation to its URL.
\<close>

theorem resume_check:
  "(fst (processRow E r i n s) = Inr Skipped
      \<longleftrightarrow> (\<exists>folder. parseDateToFolder (Date r) = Inr folder \<and> folder_complete (files s) folder))
   \<and> (fst (processRow E r i n s) = Inr Skipped \<longrightarrow> snd (processRow E r i n s) = s)
   \<and> (\<forall>folder. parseDateToFolder (Date r) = Inr folder \<and> \<not> folder_complete (files s) folder
         \<longrightarrow> (\<exists>evs. trace (snd (processRow E r i n s)) = trace s @ Goto (URL r) # evs))"
proof (cases "parseDateToFolder (Date r)")
  case (Inl e)
  then show ?thesis using processRow_raises[OF Inl, of E i n s] by simp
next
  case (Inr f)
  show ?thesis
  proof (cases "folder_complete (files s) f")
    case True
    then show ?thesis using processRow_skips[OF Inr True, of E i n] Inr by simp
  next
    case False
    obtain r1 s1 where pt: "process_try E r f s = (r1, s1)" by (cases "process_try E r f s")
    have pr: "fst (processRow E r i n s) \<noteq> Inr Skipped \<and> snd (processRow E r i n s) = s1"
      using processRow_works[OF Inr False, of E i n] pt by (cases r1) simp_all
    obtain evs where "trace s1 = trace s @ Goto (URL r) # evs"
      using process_try_effect[OF pt] by blast
    then show ?thesis using pr Inr False by auto
  qed
qed

theorem resume_check_witness:
  "fst (processRow env_down example_row 0 1 state_complete) = Inr Skipped
   \<and> snd (processRow env_down example_row 0 1 state_complete) = state_complete
   \<and> fst (processRow env_down example_row 0 1 state_metadata_only) \<noteq> Inr Skipped
   \<and> (\<exists>evs. trace (snd (processRow env_down example_row 0 1 state_metadata_only))
               = trace state_metadata_only @ Goto (URL example_row) # evs)"
proof -
  have k: "parseDateToFolder (Date example_row) = Inr ''01-01''"
    and c: "folder_complete (files state_complete) ''01-01''"
    and m: "\<not> folder_complete (files state_metadata_only) ''01-01''"
    by code_simp+
  show ?thesis
    using resume_check[of env_down example_row 0 1 state_complete]
          resume_check[of env_down example_row 0 1 state_metadata_only] k c m
    by auto
qed

text \<open>
  C5. Once navigation and extraction have succeeded for a record that is not skipped, and
  the store accepts the creation of the folder and the write of \<open>metadata.json\<close>, the record
  ends as processed and \<open>metadata.json\<close> holds the metadata document, written last, whatever
  the remote side answers to the downloads and whatever the store does with the files of the
  assets: also when every download fails.
\<close>

theorem metadata_always_written:
  assumes "parseDateToFolder (Date r) = Inr folder"
    and "\<not> folder_complete (files s) folder"
    and "navigate_and_extract E r s = (Inr (finalUrl, pd), s1)"
    and "\<forall>t. mkdir_answer E folder t = None"
    and "\<forall>t. write_answer E folder ''metadata.json'' t = WriteOk"
  shows "\<exists>s' evs. processRow E r i n s = (Inr Processed, s')
           \<and> readFile (files s') folder ''metadata.json''
               = Some (JsonText (build_metadata r folder finalUrl pd (now E (clock s1))))
           \<and> trace s' = trace s1 @ Mkdir folder # evs @ [Wrote folder ''metadata.json'']"
proof -
  obtain s' evs where ds: "download_and_save E r folder finalUrl pd s1 = (Inr (), s')"
      "readFile (files s') folder ''metadata.json''
         = Some (JsonText (build_metadata r folder finalUrl pd (now E (clock s1))))"
      "trace s' = trace s1 @ Mkdir folder # evs @ [Wrote folder ''metadata.json'']"
    using download_and_save_ok[OF assms(4,5)] by blast
  have "process_try E r folder s = (Inr (), s')"
    using assms(3) ds(1) unfolding process_try_def by simp
  then have "processRow E r i n s = (Inr Processed, s')"
    using processRow_works[OF assms(1,2), of E i n] by simp
  then show ?thesis using ds(2,3) by blast
qed

theorem metadata_always_written_witness:
  "parseDateToFolder (Date example_row) = Inr ''01-01''
   \<and> \<not> folder_complete (files state_empty) ''01-01''
   \<and> (\<forall>t. mkdir_answer env_no_assets ''01-01'' t = None)
   \<and> (\<forall>t. write_answer env_no_assets ''01-01'' ''metadata.json'' t = WriteOk)
   \<and> (\<exists>finalUrl pd s1.
         navigate_and_extract env_no_assets example_row state_empty = (Inr (finalUrl, pd), s1)
         \<and> (\<exists>s' evs. processRow env_no_assets example_row 0 1 state_empty = (Inr Processed, s')
               \<and> readFile (files s') ''01-01'' ''metadata.json''
                   = Some (JsonText (build_metadata example_row ''01-01'' finalUrl pd
                                       (now env_no_assets (clock s1))))
               \<and> trace s' = trace s1 @ Mkdir ''01-01'' # evs @ [Wrote ''01-01'' ''metadata.json'']))
   \<and> fst (snd (download_all env_no_assets ''01-01''
                 [\<lparr>url = ''https://assets/full'', asset_type = ''jpg'',
                   asset_size = Some ''2 MB'', resolution = Some ''3000x2400''\<rparr>,
                  \<lparr>url = ''https://assets/plain'', asset_type = ''jpg'',
                   asset_size = None, resolution = None\<rparr>] 0
                 \<lparr>files = [(''01-01'', [])], clock = 1, trace = []\<rparr>))
       = [(''full.jpg'', False), (''image_0.jpg'', False)]"
proof -
  have k: "parseDateToFolder (Date example_row) = Inr ''01-01''"
    and c: "\<not> folder_complete (files state_empty) ''01-01''"
    by code_simp+
  have m: "\<forall>t. mkdir_answer env_no_assets ''01-01'' t = None"
    and w: "\<forall>t. write_answer env_no_assets ''01-01'' ''metadata.json'' t = WriteOk"
    by (simp_all add: env_no_assets_def)
  let ?pd = "\<lparr>pageTitle = Some ''Leo IV'', pageDescription = None,
              meta_fields = (\<lambda>f. None),
              downloads =
                [\<lparr>url = ''https://assets/full'', asset_type = ''jpg'',
                  asset_size = Some ''2 MB'', resolution = Some ''3000x2400''\<rparr>,
                 \<lparr>url = ''https://assets/plain'', asset_type = ''jpg'',
                  asset_size = None, resolution = None\<rparr>]\<rparr>"
  let ?s1 = "\<lparr>files = [], clock = 1,
              trace = [Goto ''https://hubblesite.org/image/1'', Delay 500]\<rparr>"
  have ne: "navigate_and_extract env_no_assets example_row state_empty
              = (Inr (''https://science.nasa.gov/image/1'', ?pd), ?s1)"
    by (simp add: navigate_and_extract_def navigate_def delay_def example_row_def
          example_page_def env_no_assets_def state_empty_def)
  have dl: "fst (snd (download_all env_no_assets ''01-01''
                 [\<lparr>url = ''https://assets/full'', asset_type = ''jpg'',
                   asset_size = Some ''2 MB'', resolution = Some ''3000x2400''\<rparr>,
                  \<lparr>url = ''https://assets/plain'', asset_type = ''jpg'',
                   asset_size = None, resolution = None\<rparr>] 0
                 \<lparr>files = [(''01-01'', [])], clock = 1, trace = []\<rparr>))
       = [(''full.jpg'', False), (''image_0.jpg'', False)]"
    by code_simp
  show ?thesis
    using metadata_always_written[OF k c ne m w, of 0 1] k c m w ne dl by blast
qed


section \<open>The index of a plain image\<close>







section \<open>The batch\<close>

lemma main_loop_Cons:
  "main_loop E (r # rs) i n st s = (e, st', results, s') \<Longrightarrow>
   parseDateToFolder (Date r) = Inr f \<Longrightarrow>
   \<exists>res s1 results2.
     processRow E r i n s = (Inr res, s1) \<and> results = res # results2
     \<and> main_loop E rs (Suc i) n (tally res st)
          (if res \<noteq> Skipped \<and> Suc i < n then delay DELAY_MS s1 else s1)
        = (e, st', results2, s')"
proof -
  assume ml: "main_loop E (r # rs) i n st s = (e, st', results, s')"
    and k: "parseDateToFolder (Date r) = Inr f"
  obtain pr s1 where pr: "processRow E r i n s = (pr, s1)" by (cases "processRow E r i n s")
  then obtain res where res: "pr = Inr res" using processRow_effect[OF pr k] by blast
  let ?s2 = "if res \<noteq> Skipped \<and> Suc i < n then delay DELAY_MS s1 else s1"
  obtain e2 st2 results2 s2 where rec:
    "main_loop E rs (Suc i) n (tally res st) ?s2 = (e2, st2, results2, s2)"
    by (cases "main_loop E rs (Suc i) n (tally res st) ?s2") auto
  have "e = e2" "st' = st2" "results = res # results2" "s' = s2"
    using ml pr res rec by simp_all
  then show ?thesis using pr res rec by simp
qed

lemma main_loop_raise:
  "parseDateToFolder (Date r) = Inl x \<Longrightarrow>
   main_loop E (r # rs) i n st s = (Some x, st, [], s)"
  by (simp add: processRow_raises)

lemma main_loop_length:
  "main_loop E rows i n st s = (e, st', results, s') \<Longrightarrow>
   length results = length (takeWhile (\<lambda>r. \<exists>f. parseDateToFolder (Date r) = Inr f) rows)"
proof (induction rows arbitrary: i st s e st' results s')
  case Nil
  then show ?case by simp
next
  case (Cons r rs)
  show ?case
  proof (cases "parseDateToFolder (Date r)")
    case (Inl x)
    then show ?thesis using Cons.prems main_loop_raise[OF Inl, of E rs i n st s] by simp
  next
    case (Inr f)
    from main_loop_Cons[OF Cons.prems Inr] obtain res s1 results2 where
      a: "results = res # results2"
         "main_loop E rs (Suc i) n (tally res st)
            (if res \<noteq> Skipped \<and> Suc i < n then delay DELAY_MS s1 else s1)
          = (e, st', results2, s')"
      by blast
    show ?thesis using Cons.IH[OF a(2)] a(1) Inr by simp
  qed
qed

lemma main_loop_counts:
  "main_loop E rows i n st s = (e, st', results, s') \<Longrightarrow>
   processed st' = processed st + length (filter (\<lambda>x. x = Processed) results)
   \<and> skipped st' = skipped st + length (filter (\<lambda>x. x = Skipped) results)
   \<and> failed st' = failed st + length (filter (\<lambda>x. x \<noteq> Processed \<and> x \<noteq> Skipped) results)
   \<and> processed st' + skipped st' + failed st'
       = processed st + skipped st + failed st + length results"
proof (induction rows arbitrary: i st s e st' results s')
  case Nil
  then show ?case by simp
next
  case (Cons r rs)
  show ?case
  proof (cases "parseDateToFolder (Date r)")
    case (Inl x)
    then show ?thesis using Cons.prems main_loop_raise[OF Inl, of E rs i n st s] by simp
  next
    case (Inr f)
    from main_loop_Cons[OF Cons.prems Inr] obtain res s1 results2 where
      a: "results = res # results2"
         "main_loop E rs (Suc i) n (tally res st)
            (if res \<noteq> Skipped \<and> Suc i < n then delay DELAY_MS s1 else s1)
          = (e, st', results2, s')"
      by blast
    show ?thesis using Cons.IH[OF a(2)] a(1) by (cases res) (simp_all add: tally_def)
  qed
qed


lemma main_loop_skips:
  assumes "main_loop E rows i n st s = (e, st', results, s')" and "folder_complete (files s) k"
  shows "(\<forall>j < length results. parseDateToFolder (Date (rows ! j)) = Inr k \<longrightarrow> results ! j = Skipped)
         \<and> (\<exists>evs. trace s' = trace s @ evs \<and> (\<forall>ev \<in> set evs. \<not> touches k ev))
         \<and> folder_complete (files s') k"
  using assms
proof (induction rows arbitrary: i st s e st' results s')
  case Nil
  then show ?case by simp
next
  case (Cons r rs)
  show ?case
  proof (cases "parseDateToFolder (Date r)")
    case (Inl x)
    then show ?thesis using Cons.prems main_loop_raise[OF Inl, of E rs i n st s] by simp
  next
    case (Inr f)
    from main_loop_Cons[OF Cons.prems(1) Inr] obtain res s1 results2 where
      a: "processRow E r i n s = (Inr res, s1)" "results = res # results2"
         "main_loop E rs (Suc i) n (tally res st)
            (if res \<noteq> Skipped \<and> Suc i < n then delay DELAY_MS s1 else s1)
          = (e, st', results2, s')"
      by blast
    let ?s2 = "if res \<noteq> Skipped \<and> Suc i < n then delay DELAY_MS s1 else s1"
    have e1: "extends f s s1" using processRow_effect[OF a(1) Inr] by blast
    have e2: "extends f s1 ?s2" by (simp add: extends_refl extends_delay)
    have same: "f = k \<longrightarrow> res = Skipped \<and> s1 = s"
      using processRow_skips[OF Inr, of s E i n] Cons.prems(2) a(1) by auto
    have c2: "folder_complete (files ?s2) k"
      using extends_complete[OF extends_trans[OF e1 e2] Cons.prems(2)] .
    obtain ev1 where ev1: "trace ?s2 = trace s @ ev1" "\<forall>ev \<in> set ev1. \<not> touches k ev"
    proof (cases "f = k")
      case True
      then have "?s2 = s" using same by simp
      then show ?thesis using that[of "[]"] by simp
    next
      case False
      obtain evs where "trace ?s2 = trace s @ evs" "\<forall>ev \<in> set evs. \<forall>k. touches k ev \<longrightarrow> k = f"
        using extends_events[OF extends_trans[OF e1 e2]] by blast
      then show ?thesis using that[of evs] False by blast
    qed
    note ih = Cons.IH[OF a(3) c2]
    then obtain ev2 where ev2: "trace s' = trace ?s2 @ ev2" "\<forall>ev \<in> set ev2. \<not> touches k ev"
      by blast
    have t: "trace s' = trace s @ (ev1 @ ev2) \<and> (\<forall>ev \<in> set (ev1 @ ev2). \<not> touches k ev)"
      using ev1 ev2 by auto
    have "\<forall>j < length results. parseDateToFolder (Date ((r # rs) ! j)) = Inr k \<longrightarrow> results ! j = Skipped"
    proof (intro allI impI)
      fix j assume j: "j < length results" "parseDateToFolder (Date ((r # rs) ! j)) = Inr k"
      show "results ! j = Skipped"
      proof (cases j)
        case 0
        then show ?thesis using j(2) Inr same a(2) by simp
      next
        case (Suc m)
        then show ?thesis using j a(2) ih by simp
      qed
    qed
    then show ?thesis using t ih by blast
  qed
qed



text \<open>
  C4. Stage 1 is run twice over the same records, the second run starting from the store
  the first left. A record the first run reached and whose folder is complete after it is
  reached and skipped by the second run, which makes no fetch for a file of that folder and
  writes no file in it; the counters of the second run count it as skipped.
\<close>

theorem stage1_idempotent:
  assumes "run_stage1 E1 records s0 = (e1, st1, rs1, s1)"
    and "run_stage1 E2 records s1 = (e2, st2, rs2, s2)"
    and "i < length rs1"
    and "parseDateToFolder (Date (records ! i)) = Inr k"
    and "folder_complete (files s1) k"
  shows "i < length rs2 \<and> rs2 ! i = Skipped
         \<and> (\<exists>evs. trace s2 = trace s1 @ evs \<and> (\<forall>ev \<in> set evs. \<not> touches k ev))
         \<and> skipped st2 = length (filter (\<lambda>x. x = Skipped) rs2)
         \<and> processed st2 = length (filter (\<lambda>x. x = Processed) rs2)"
proof -
  have l: "length rs2 = length rs1"
    using main_loop_length[OF assms(1)[unfolded run_stage1_def]]
          main_loop_length[OF assms(2)[unfolded run_stage1_def]] by simp
  note sk = main_loop_skips[OF assms(2)[unfolded run_stage1_def] assms(5)]
  note ct = main_loop_counts[OF assms(2)[unfolded run_stage1_def]]
  have "rs2 ! i = Skipped" using sk l assms(3,4) by simp
  then show ?thesis using sk l assms(3) ct by simp
qed

theorem stage1_idempotent_witness:
  "\<exists>e1 st1 rs1 s1 e2 st2 rs2 s2.
     run_stage1 env_up [example_row] state_empty = (e1, st1, rs1, s1)
     \<and> run_stage1 env_down [example_row] s1 = (e2, st2, rs2, s2)
     \<and> rs1 = [Processed] \<and> folder_complete (files s1) ''01-01''
     \<and> rs2 ! 0 = Skipped
     \<and> (\<exists>evs. trace s2 = trace s1 @ evs \<and> (\<forall>ev \<in> set evs. \<not> touches ''01-01'' ev))"
proof -
  obtain e1 st1 rs1 s1 where r1: "run_stage1 env_up [example_row] state_empty = (e1, st1, rs1, s1)"
    by (cases "run_stage1 env_up [example_row] state_empty") auto
  obtain e2 st2 rs2 s2 where r2: "run_stage1 env_down [example_row] s1 = (e2, st2, rs2, s2)"
    by (cases "run_stage1 env_down [example_row] s1") auto
  have "fst (snd (snd (run_stage1 env_up [example_row] state_empty))) = [Processed]"
    by code_simp
  then have a: "rs1 = [Processed]" using r1 by simp
  have "folder_complete (files (snd (snd (snd (run_stage1 env_up [example_row] state_empty)))))
          ''01-01''"
    by code_simp
  then have c: "folder_complete (files s1) ''01-01''" using r1 by simp
  have k: "parseDateToFolder (Date ([example_row] ! 0)) = Inr ''01-01''"
    by code_simp
  have i: "0 < length rs1" using a by simp
  show ?thesis
    using stage1_idempotent[OF r1 r2 i k c] r1 r2 a c by blast
qed


section \<open>Enrichment\<close>

text \<open>
  C6. For a folder without \<open>video-content.json\<close>: with no \<open>metadata.json\<close> the result is the
  failure \<open>No metadata\<close>; with a \<open>metadata.json\<close> that parses to a value other than \<open>null\<close>
  and has no truthy \<open>finalUrl\<close> the result is the failure \<open>No finalUrl\<close>. The two reasons
  differ, and in both cases the world is as before: no navigation, nothing written.
\<close>

theorem enrich_precondition:
  assumes "\<not> access (files s) folder ''video-content.json''"
  shows "(readFile (files s) folder ''metadata.json'' = None
            \<longrightarrow> processFolder E folder i n s = (Inr (Failed ''No metadata''), s))
         \<and> (readFile (files s) folder ''metadata.json'' = Some (JsonText j) \<and> j \<noteq> JNull
              \<and> \<not> truthy (read_prop j ''finalUrl'')
            \<longrightarrow> processFolder E folder i n s = (Inr (Failed ''No finalUrl''), s))
         \<and> ''No metadata'' \<noteq> ''No finalUrl''"
  using assms unfolding processFolder_def read_prop_def get_prop_def
  by (cases j) simp_all

theorem enrich_precondition_witness:
  "\<not> access (files state_empty) ''01-01'' ''video-content.json''
   \<and> processFolder env_up ''01-01'' 0 1 state_empty = (Inr (Failed ''No metadata''), state_empty)
   \<and> \<not> access (files state_no_final_url) ''01-01'' ''video-content.json''
   \<and> processFolder env_up ''01-01'' 0 1 state_no_final_url
       = (Inr (Failed ''No finalUrl''), state_no_final_url)"
proof -
  have a: "\<not> access (files state_empty) ''01-01'' ''video-content.json''"
    and b: "\<not> access (files state_no_final_url) ''01-01'' ''video-content.json''"
    and c: "readFile (files state_empty) ''01-01'' ''metadata.json'' = None"
    and d: "readFile (files state_no_final_url) ''01-01'' ''metadata.json''
              = Some (JsonText (JObj [(''date'', JStr ''January 1 2019'')]))"
    and e: "\<not> truthy (read_prop (JObj [(''date'', JStr ''January 1 2019'')]) ''finalUrl'')"
    by (simp_all add: access_def readFile_def state_empty_def state_no_final_url_def
          truthy_def read_prop_def get_prop_def)
  show ?thesis
    using enrich_precondition[OF a, where E = env_up and i = 0 and n = 1]
          enrich_precondition[OF b, where j = "JObj [(''date'', JStr ''January 1 2019'')]"
            and E = env_up and i = 0 and n = 1]
          a b c d e
    by simp
qed

text \<open>
  C10. A \<open>metadata.json\<close> that does not parse gives the same result as no
  \<open>metadata.json\<close>: the failure \<open>No metadata\<close>, the world as before.
\<close>

theorem corrupt_metadata_like_absent:
  assumes "\<not> access (files s) folder ''video-content.json''"
    and "readFile (files s) folder ''metadata.json'' = Some (Unparsable bytes)"
    and "\<not> access (files s0) folder ''video-content.json''"
    and "readFile (files s0) folder ''metadata.json'' = None"
  shows "processFolder E folder i n s = (Inr (Failed ''No metadata''), s)
         \<and> processFolder E folder i n s0 = (Inr (Failed ''No metadata''), s0)"
  using assms unfolding processFolder_def by simp

theorem corrupt_metadata_like_absent_witness:
  "\<not> access (files state_corrupt) ''01-01'' ''video-content.json''
   \<and> readFile (files state_corrupt) ''01-01'' ''metadata.json''
       = Some (Unparsable ''{ date: Janu'')
   \<and> \<not> access (files state_empty) ''01-01'' ''video-content.json''
   \<and> readFile (files state_empty) ''01-01'' ''metadata.json'' = None
   \<and> processFolder env_up ''01-01'' 0 1 state_corrupt
       = (Inr (Failed ''No metadata''), state_corrupt)
   \<and> processFolder env_up ''01-01'' 0 1 state_empty
       = (Inr (Failed ''No metadata''), state_empty)"
proof -
  have a: "\<not> access (files state_corrupt) ''01-01'' ''video-content.json''"
    and b: "readFile (files state_corrupt) ''01-01'' ''metadata.json''
              = Some (Unparsable ''{ date: Janu'')"
    and c: "\<not> access (files state_empty) ''01-01'' ''video-content.json''"
    and d: "readFile (files state_empty) ''01-01'' ''metadata.json'' = None"
    by (simp_all add: access_def readFile_def state_empty_def state_corrupt_def)
  show ?thesis
    using corrupt_metadata_like_absent[OF a b c d, of env_up 0 1] a b c d by simp
qed

end
